theory Spec2Isabelle
  imports Complex_Main "HOL-Library.Sublist"
begin

section \<open>Strings and the library's character tables\<close>

text \<open>
  A Python \<open>str\<close> is a sequence of Unicode code points: a list of naturals. An ASCII
  literal of the source is written \<open>asc ''...''\<close>.
\<close>

type_synonym ustr = "nat list"

abbreviation ch :: "char \<Rightarrow> nat" where
  "ch \<equiv> of_char"

abbreviation asc :: "string \<Rightarrow> ustr" where
  "asc \<equiv> map of_char"

text \<open>The backslash, code point 92, has no literal of its own.\<close>

definition BACKSLASH :: nat where
  "BACKSLASH = 92"

text \<open>
  A decoded JSON value, as \<open>response.json()\<close> returns it. An object is a \<open>dict\<close> with
  string keys, written as an association list read with \<open>map_of\<close>. The floats \<open>nan\<close>
  and \<open>inf\<close>, which the decoder also accepts, are left out.
\<close>

datatype json =
  JNull
  | JBool bool
  | JInt int
  | JFloat real
  | JStr ustr
  | JArr "json list"
  | JObj "(ustr \<times> json) list"

text \<open>
  The classes \<open>\d\<close>, \<open>\s\<close> and \<open>\w\<close> of \<open>re\<close> on a \<open>str\<close> pattern, the whitespace of
  \<open>str.strip()\<close> and \<open>str.lower()\<close> follow the Unicode tables of the interpreter. Their
  ASCII part is the same in every version and is written out here; what they do beyond
  ASCII is a parameter of the model, as are the two checks of \<open>urllib.parse\<close> that
  consult the \<open>ipaddress\<close> and \<open>unicodedata\<close> modules, and \<open>str()\<close> of a value that is not
  a string.
\<close>

record pylib =
  udigit :: "nat \<Rightarrow> bool"        \<comment> \<open>\<open>\d\<close> beyond ASCII\<close>
  uspace :: "nat \<Rightarrow> bool"        \<comment> \<open>\<open>\s\<close> and \<open>str.isspace\<close> beyond ASCII\<close>
  uword :: "nat \<Rightarrow> bool"         \<comment> \<open>\<open>\w\<close> beyond ASCII\<close>
  ulower :: "ustr \<Rightarrow> ustr"       \<comment> \<open>\<open>str.lower()\<close> of a string that is not all ASCII\<close>
  bracketed_ok :: "ustr \<Rightarrow> bool" \<comment> \<open>\<open>_check_bracketed_host\<close> does not raise\<close>
  nfkc_ok :: "ustr \<Rightarrow> bool"      \<comment> \<open>\<open>_checknetloc\<close> does not raise on a non-ASCII netloc\<close>
  repr :: "json \<Rightarrow> ustr"         \<comment> \<open>\<open>str(v)\<close> of a value that is not a \<open>str\<close>\<close>

definition is_ascii :: "nat \<Rightarrow> bool" where
  "is_ascii c \<longleftrightarrow> c < 128"

definition ascii_upper :: "nat \<Rightarrow> bool" where
  "ascii_upper c \<longleftrightarrow> 65 \<le> c \<and> c \<le> 90"

definition ascii_lower :: "nat \<Rightarrow> bool" where
  "ascii_lower c \<longleftrightarrow> 97 \<le> c \<and> c \<le> 122"

definition ascii_letter :: "nat \<Rightarrow> bool" where
  \<comment> \<open>\<open>[a-zA-Z]\<close>\<close>
  "ascii_letter c \<longleftrightarrow> ascii_lower c \<or> ascii_upper c"

definition ascii_digit :: "nat \<Rightarrow> bool" where
  "ascii_digit c \<longleftrightarrow> 48 \<le> c \<and> c \<le> 57"

definition ascii_space :: "nat \<Rightarrow> bool" where
  \<comment> \<open>tab, line feed, vertical tab, form feed, carriage return, the four separators
      \<open>\x1c\<close> to \<open>\x1f\<close> and the space\<close>
  "ascii_space c \<longleftrightarrow> (9 \<le> c \<and> c \<le> 13) \<or> (28 \<le> c \<and> c \<le> 32)"

definition isdigit :: "pylib \<Rightarrow> nat \<Rightarrow> bool" where
  "isdigit L c = (if is_ascii c then ascii_digit c else udigit L c)"

definition isspace :: "pylib \<Rightarrow> nat \<Rightarrow> bool" where
  "isspace L c = (if is_ascii c then ascii_space c else uspace L c)"

definition isword :: "pylib \<Rightarrow> nat \<Rightarrow> bool" where
  "isword L c =
     (if is_ascii c then ascii_letter c \<or> ascii_digit c \<or> c = ch CHR ''_''
      else uword L c)"

definition to_lower :: "nat \<Rightarrow> nat" where
  "to_lower c = (if ascii_upper c then c + 32 else c)"

definition lower :: "pylib \<Rightarrow> ustr \<Rightarrow> ustr" where
  "lower L s = (if list_all is_ascii s then map to_lower s else ulower L s)"

subsection \<open>String methods\<close>

definition startswith :: "ustr \<Rightarrow> ustr \<Rightarrow> bool" where
  "startswith s p \<longleftrightarrow> take (length p) s = p"

definition strip_chars :: "(nat \<Rightarrow> bool) \<Rightarrow> ustr \<Rightarrow> ustr" where
  \<comment> \<open>\<open>s.strip(chars)\<close>: the characters of the set are dropped at both ends\<close>
  "strip_chars P s = rev (dropWhile P (rev (dropWhile P s)))"

definition strip :: "pylib \<Rightarrow> ustr \<Rightarrow> ustr" where
  \<comment> \<open>\<open>s.strip()\<close>\<close>
  "strip L s = strip_chars (isspace L) s"

definition before :: "nat \<Rightarrow> ustr \<Rightarrow> ustr" where
  \<comment> \<open>\<open>s.partition(c)[0]\<close>, also \<open>s.split(c)[0]\<close> and \<open>s.split(c, 1)[0]\<close>\<close>
  "before c s = takeWhile (\<lambda>x. x \<noteq> c) s"

definition after :: "nat \<Rightarrow> ustr \<Rightarrow> ustr" where
  \<comment> \<open>\<open>s.partition(c)[2]\<close>: empty when \<open>c\<close> does not occur\<close>
  "after c s = drop 1 (dropWhile (\<lambda>x. x \<noteq> c) s)"

definition rbefore :: "nat \<Rightarrow> ustr \<Rightarrow> ustr" where
  \<comment> \<open>\<open>s[:s.rfind(c)]\<close> when \<open>c\<close> occurs in \<open>s\<close>\<close>
  "rbefore c s = rev (after c (rev s))"

definition rafter :: "nat \<Rightarrow> ustr \<Rightarrow> ustr" where
  \<comment> \<open>\<open>s.rpartition(c)[2]\<close>, also \<open>s.split(c)[-1]\<close>: the whole of \<open>s\<close> when \<open>c\<close>
      does not occur\<close>
  "rafter c s = rev (before c (rev s))"

fun replace_www :: "ustr \<Rightarrow> ustr" where
  \<comment> \<open>\<open>s.replace('www.', '')\<close>: every occurrence, left to right, not only a leading one\<close>
  "replace_www (a # b # c # d # s) =
     (if [a, b, c, d] = asc ''www.'' then replace_www s
      else a # replace_www (b # c # d # s))"
| "replace_www s = s"

section \<open>urllib.parse.urlparse\<close>

text \<open>
  The standard library's parser (\<open>urlsplit\<close>, \<open>urlparse\<close> and the property
  \<open>hostname\<close> of CPython 3.11), as far as the program reads its result: the fields
  \<open>scheme\<close>, \<open>netloc\<close> and \<open>path\<close> and the host name. It raises
  \<open>ValueError\<close> on unbalanced or invalid brackets in the network location.
\<close>

datatype error = ValueError | TypeError | KeyError | IndexError | AttributeError | OSError

record parse_result =
  scheme :: ustr
  netloc :: ustr
  path :: ustr
  params :: ustr
  query :: ustr
  fragment :: ustr

definition scheme_char :: "nat \<Rightarrow> bool" where
  \<comment> \<open>\<open>scheme_chars\<close>: ASCII letters, digits and \<open>+-.\<close>\<close>
  "scheme_char c \<longleftrightarrow>
     ascii_letter c \<or> ascii_digit c \<or> c \<in> set (asc ''+-.'')"

definition uses_params :: "ustr list" where
  "uses_params = map asc
     ['''', ''ftp'', ''hdl'', ''prospero'', ''http'', ''imap'', ''https'', ''shttp'',
      ''rtsp'', ''rtsps'', ''rtspu'', ''sip'', ''sips'', ''mms'', ''sftp'', ''tel'']"

definition split_scheme :: "ustr \<Rightarrow> ustr \<times> ustr" where
  \<comment> \<open>the scheme is taken off when a colon occurs, not first, the first character is an
      ASCII letter and everything before the colon is a scheme character\<close>
  "split_scheme url =
     (let pre = before (ch CHR '':'') url in
      if ch CHR '':'' \<in> set url \<and> pre \<noteq> [] \<and> ascii_letter (hd pre)
         \<and> list_all scheme_char pre
      then (map to_lower pre, after (ch CHR '':'') url)
      else ([], url))"

definition netloc_delim :: "nat \<Rightarrow> bool" where
  "netloc_delim c \<longleftrightarrow> c \<in> set (asc ''/?#'')"

definition splitnetloc :: "ustr \<Rightarrow> ustr \<times> ustr" where
  \<comment> \<open>\<open>_splitnetloc(url, 2)\<close>\<close>
  "splitnetloc url =
     (takeWhile (\<lambda>c. \<not> netloc_delim c) (drop 2 url),
      dropWhile (\<lambda>c. \<not> netloc_delim c) (drop 2 url))"

definition check_brackets :: "pylib \<Rightarrow> ustr \<Rightarrow> bool" where
  \<comment> \<open>the two bracket checks of \<open>urlsplit\<close> pass\<close>
  "check_brackets L nl =
     (let ob = ch CHR ''['' \<in> set nl; cb = ch CHR '']'' \<in> set nl in
      if (ob \<and> \<not> cb) \<or> (cb \<and> \<not> ob) then False
      else if ob \<and> cb
        then bracketed_ok L (before (ch CHR '']'') (after (ch CHR ''['') nl))
      else True)"

definition checknetloc :: "pylib \<Rightarrow> ustr \<Rightarrow> bool" where
  "checknetloc L nl \<longleftrightarrow> nl = [] \<or> list_all is_ascii nl \<or> nfkc_ok L nl"

definition splitparams :: "ustr \<Rightarrow> ustr \<times> ustr" where
  \<comment> \<open>\<open>_splitparams\<close>, called on a string that contains a semicolon\<close>
  "splitparams url =
     (if ch CHR ''/'' \<in> set url then
        (let seg = ch CHR ''/'' # rafter (ch CHR ''/'') url in
         if ch CHR '';'' \<in> set seg
         then (rbefore (ch CHR ''/'') url @ before (ch CHR '';'') seg,
               after (ch CHR '';'') seg)
         else (url, []))
      else (before (ch CHR '';'') url, after (ch CHR '';'') url))"

definition urlparse :: "pylib \<Rightarrow> ustr \<Rightarrow> error + parse_result" where
  "urlparse L url0 =
     (let url1 = dropWhile (\<lambda>c. c \<le> 32) url0;
          url2 = filter (\<lambda>c. c \<notin> {9, 13, 10}) url1;
          (sch, url3) = split_scheme url2;
          (nl, url4) = (if take 2 url3 = asc ''//'' then splitnetloc url3 else ([], url3))
      in if take 2 url3 = asc ''//'' \<and> \<not> check_brackets L nl then Inl ValueError
      else
        let (url5, frag) =
              (if ch CHR ''#'' \<in> set url4
               then (before (ch CHR ''#'') url4, after (ch CHR ''#'') url4)
               else (url4, []));
            (url6, qry) =
              (if ch CHR ''?'' \<in> set url5
               then (before (ch CHR ''?'') url5, after (ch CHR ''?'') url5)
               else (url5, []))
        in if \<not> checknetloc L nl then Inl ValueError
        else
          let (url7, prm) =
                (if sch \<in> set uses_params \<and> ch CHR '';'' \<in> set url6
                 then splitparams url6 else (url6, []))
          in Inr \<lparr>scheme = sch, netloc = nl, path = url7, params = prm,
                  query = qry, fragment = frag\<rparr>)"

definition hostname :: "pylib \<Rightarrow> parse_result \<Rightarrow> ustr option" where
  \<comment> \<open>the property \<open>hostname\<close>: \<open>None\<close> when the host part of the netloc is empty\<close>
  "hostname L p =
     (let hostinfo = rafter (ch CHR ''@'') (netloc p);
          h = (if ch CHR ''['' \<in> set hostinfo
               then before (ch CHR '']'') (after (ch CHR ''['') hostinfo)
               else before (ch CHR '':'') hostinfo)
      in if h = [] then None
         else Some (lower L (before (ch CHR ''%'') h)
                    @ dropWhile (\<lambda>c. c \<noteq> ch CHR ''%'') h))"

section \<open>The URL normalizer: \<open>clean_and_validate_url\<close>\<close>

fun close_brace :: "ustr \<Rightarrow> ustr option" where
  \<comment> \<open>what follows the first closing brace, if there is one\<close>
  "close_brace [] = None"
| "close_brace (c # s) = (if c = ch CHR ''}'' then Some s else close_brace s)"

lemma close_brace_length: "close_brace s = Some r \<Longrightarrow> length r < Suc (length s)"
  by (induction s) (auto split: if_splits)

function remove_rtf_groups :: "ustr \<Rightarrow> ustr" where
  \<comment> \<open>\<open>re.sub(r'\{[^}]*\}', '', url)\<close>: a brace with a closing brace after it is removed
      together with everything up to the first closing brace\<close>
  "remove_rtf_groups [] = []"
| "remove_rtf_groups (c # s) =
     (if c = ch CHR ''{'' then
        (case close_brace s of
           Some r \<Rightarrow> remove_rtf_groups r
         | None \<Rightarrow> c # remove_rtf_groups s)
      else c # remove_rtf_groups s)"
  by pat_completeness auto
termination
  by (relation "measure length") (auto dest: close_brace_length)

function remove_rtf_commands :: "pylib \<Rightarrow> ustr \<Rightarrow> ustr" where
  \<comment> \<open>\<open>re.sub(r'\\[a-zA-Z]+\d*', '', url)\<close>: a backslash followed by a letter is removed
      with all the letters and then all the digits that follow\<close>
  "remove_rtf_commands L [] = []"
| "remove_rtf_commands L (c # s) =
     (if c = BACKSLASH \<and> s \<noteq> [] \<and> ascii_letter (hd s)
      then remove_rtf_commands L (dropWhile (isdigit L) (dropWhile ascii_letter s))
      else c # remove_rtf_commands L s)"
  by pat_completeness auto
termination
  by (relation "measure (\<lambda>(L, s). length s)")
     (auto simp: less_Suc_eq_le intro: le_trans [OF length_dropWhile_le length_dropWhile_le])

definition printable :: "nat \<Rightarrow> bool" where
  \<comment> \<open>\<open>[\x20-\x7E]\<close>\<close>
  "printable c \<longleftrightarrow> 32 \<le> c \<and> c \<le> 126"

definition clean_and_validate_url :: "pylib \<Rightarrow> ustr \<Rightarrow> error + ustr option" where
  "clean_and_validate_url L url0 =
     (if url0 = [] then Inr None
      else
        let url1 = remove_rtf_groups url0;
            url2 = remove_rtf_commands L url1;
            url3 = filter printable url2;
            url4 = strip L url3
        in if url4 = [] then Inr None
        else if startswith url4 (asc ''#'') then Inr None
        else
          let url5 = (if startswith url4 (asc ''http://'') \<or> startswith url4 (asc ''https://'')
                      then url4 else asc ''https://'' @ url4)
          in case urlparse L url5 of
               Inl e \<Rightarrow> Inl e
             | Inr parsed \<Rightarrow>
                 if netloc parsed = [] \<or> scheme parsed = [] then Inr None
                 else Inr (Some url5))"

section \<open>The file name: \<open>get_filename_from_url\<close>\<close>

definition sanitize :: "pylib \<Rightarrow> ustr \<Rightarrow> ustr" where
  \<comment> \<open>\<open>re.sub(r'[^\w\-]', '', s)\<close>\<close>
  "sanitize L s = filter (\<lambda>c. isword L c \<or> c = ch CHR ''-'') s"

definition get_filename_from_url :: "pylib \<Rightarrow> ustr \<Rightarrow> error + ustr" where
  "get_filename_from_url L url =
     (case urlparse L url of
        Inl e \<Rightarrow> Inl e
      | Inr parsed \<Rightarrow>
          let host0 = (case hostname L parsed of
                         Some h \<Rightarrow> replace_www h
                       | None \<Rightarrow> asc ''unknown'');
              host = sanitize L host0;
              pth = strip_chars (\<lambda>c. c = ch CHR ''/'') (path parsed)
          in if pth = [] \<or> pth = asc ''index.html'' \<or> pth = asc ''index.php''
             then Inr (host @ asc ''.md'')
             else
               let page0 = rafter (ch CHR ''/'') pth;
                   page1 = (if ch CHR ''.'' \<in> set page0
                            then before (ch CHR ''.'') page0 else page0);
                   page = sanitize L page1
               in if page \<noteq> []
                  then Inr (host @ asc ''-'' @ page @ asc ''.md'')
                  else Inr (host @ asc ''.md''))"


definition url_hostname :: "pylib \<Rightarrow> ustr \<Rightarrow> error + ustr option" where
  \<comment> \<open>\<open>urlparse(url).hostname\<close>\<close>
  "url_hostname L url =
     (case urlparse L url of Inl e \<Rightarrow> Inl e | Inr parsed \<Rightarrow> Inr (hostname L parsed))"

section \<open>The content cleaner: \<open>clean_markdown_content\<close>\<close>

text \<open>
  Each \<open>re.sub\<close> of the function is one pass over the text, written as the scan that the
  regular expression engine performs: at every position, from the left, the pattern is
  tried; a match is replaced and the scan goes on behind it, otherwise the character is
  kept. None of the patterns matches the empty string, and in each of them the greedy
  choice is the only one that can succeed.
\<close>

definition LANGLE :: nat where
  \<comment> \<open>U+27E8, mathematical left angle bracket\<close>
  "LANGLE = 10216"

definition RANGLE :: nat where
  \<comment> \<open>U+27E9, mathematical right angle bracket\<close>
  "RANGLE = 10217"

definition NL :: nat where
  "NL = 10"

definition punct :: "nat \<Rightarrow> bool" where
  \<comment> \<open>\<open>[,.!?]\<close>\<close>
  "punct c \<longleftrightarrow> c \<in> set (asc '',.!?'')"

definition blank :: "nat \<Rightarrow> bool" where
  \<comment> \<open>\<open>[ \t]\<close>\<close>
  "blank c \<longleftrightarrow> c = 32 \<or> c = 9"

lemma length_after_le: "length (after c s) \<le> length s"
proof -
  have "length (after c s) \<le> length (dropWhile (\<lambda>x. x \<noteq> c) s)"
    by (simp add: after_def)
  also have "\<dots> \<le> length s" by (rule length_dropWhile_le)
  finally show ?thesis .
qed

function remove_citations :: "pylib \<Rightarrow> ustr \<Rightarrow> ustr" where
  \<comment> \<open>\<open>re.sub(r'<\d+>', '', text)\<close>, with the angle brackets U+27E8 and U+27E9\<close>
  "remove_citations L [] = []"
| "remove_citations L (c # s) =
     (if c = LANGLE \<and> takeWhile (isdigit L) s \<noteq> []
         \<and> take 1 (dropWhile (isdigit L) s) = [RANGLE]
      then remove_citations L (drop 1 (dropWhile (isdigit L) s))
      else c # remove_citations L s)"
  by pat_completeness auto
termination
  by (relation "measure (\<lambda>(L, s). length s)")
     (auto simp: less_Suc_eq_le intro: le_trans [OF diff_le_self length_dropWhile_le])

fun remove_url_at :: "pylib \<Rightarrow> bool \<Rightarrow> ustr \<Rightarrow> ustr" where
  \<comment> \<open>\<open>re.sub(r'\bURL\b', '', text)\<close>; the flag says that the character before the
      position is a word character\<close>
  "remove_url_at L pw (a # b # c # s) =
     (if [a, b, c] = asc ''URL'' \<and> \<not> pw \<and> \<not> (s \<noteq> [] \<and> isword L (hd s))
      then remove_url_at L True s
      else a # remove_url_at L (isword L a) (b # c # s))"
| "remove_url_at L pw s = s"

definition remove_url_tokens :: "pylib \<Rightarrow> ustr \<Rightarrow> ustr" where
  "remove_url_tokens L s = remove_url_at L False s"

definition image_match :: "ustr \<Rightarrow> (ustr \<times> ustr) option" where
  \<comment> \<open>\<open>\[([^\]]*)\]\([^)]*\)\<close> at the head of the string: the alt text and what follows
      the match\<close>
  "image_match s =
     (if take 1 s = asc ''['' \<and> ch CHR '']'' \<in> set (drop 1 s) then
        (let alt = before (ch CHR '']'') (drop 1 s);
             s2 = after (ch CHR '']'') (drop 1 s)
         in if take 1 s2 = asc ''('' \<and> ch CHR '')'' \<in> set (drop 1 s2)
            then Some (alt, after (ch CHR '')'') (drop 1 s2))
            else None)
      else None)"

lemma image_match_length: "image_match s = Some (alt, r) \<Longrightarrow> length r \<le> length s"
  unfolding image_match_def Let_def
  by (auto split: if_splits
      intro!: le_trans [OF length_after_le] le_trans [OF diff_le_self])

function collapse_images :: "ustr \<Rightarrow> ustr" where
  \<comment> \<open>\<open>re.sub(r'!\[([^\]]*)\]\([^)]*\)', r'\1', text)\<close>\<close>
  "collapse_images [] = []"
| "collapse_images (c # s) =
     (if c = ch CHR ''!'' then
        (case image_match s of
           Some (alt, r) \<Rightarrow> alt @ collapse_images r
         | None \<Rightarrow> c # collapse_images s)
      else c # collapse_images s)"
  by pat_completeness auto
termination
  by (relation "measure length") (auto simp: less_Suc_eq_le dest: image_match_length)

function collapse_newlines :: "ustr \<Rightarrow> ustr" where
  \<comment> \<open>\<open>re.sub(r'\n{3,}', '\n\n', text)\<close>\<close>
  "collapse_newlines [] = []"
| "collapse_newlines (c # s) =
     (if c = NL \<and> take 2 s = [NL, NL]
      then NL # NL # collapse_newlines (dropWhile (\<lambda>x. x = NL) s)
      else c # collapse_newlines s)"
  by pat_completeness auto
termination
  by (relation "measure length") (auto simp: less_Suc_eq_le length_dropWhile_le)

definition punct_after_spaces :: "pylib \<Rightarrow> ustr \<Rightarrow> bool" where
  \<comment> \<open>behind the whitespace at the head of the string, a punctuation mark follows\<close>
  "punct_after_spaces L s \<longleftrightarrow>
     dropWhile (isspace L) s \<noteq> [] \<and> punct (hd (dropWhile (isspace L) s))"

function tighten_punct :: "pylib \<Rightarrow> ustr \<Rightarrow> ustr" where
  \<comment> \<open>\<open>re.sub(r'\s+([,.!?])', r'\1', text)\<close>: a run of whitespace is removed when a
      punctuation mark follows it\<close>
  "tighten_punct L [] = []"
| "tighten_punct L (c # s) =
     (if isspace L c \<and> punct_after_spaces L s
      then hd (dropWhile (isspace L) s) # tighten_punct L (tl (dropWhile (isspace L) s))
      else c # tighten_punct L s)"
  by pat_completeness auto
termination
  by (relation "measure (\<lambda>(L, s). length s)")
     (auto simp: less_Suc_eq_le intro: le_trans [OF diff_le_self length_dropWhile_le])

function collapse_spaces :: "ustr \<Rightarrow> ustr" where
  \<comment> \<open>\<open>re.sub(r'[ \t]+', ' ', text)\<close>\<close>
  "collapse_spaces [] = []"
| "collapse_spaces (c # s) =
     (if blank c then 32 # collapse_spaces (dropWhile blank s)
      else c # collapse_spaces s)"
  by pat_completeness auto
termination
  by (relation "measure length") (auto simp: less_Suc_eq_le length_dropWhile_le)

function remove_empty_links :: "ustr \<Rightarrow> ustr" where
  \<comment> \<open>\<open>re.sub(r'\[\]\([^)]*\)', '', text)\<close>\<close>
  "remove_empty_links [] = []"
| "remove_empty_links (c # s) =
     (if c = ch CHR ''['' \<and> take 2 s = asc ''](''  \<and> ch CHR '')'' \<in> set (drop 2 s)
      then remove_empty_links (after (ch CHR '')'') (drop 2 s))
      else c # remove_empty_links s)"
  by pat_completeness auto
termination
  by (relation "measure length")
     (auto simp: less_Suc_eq_le intro!: le_trans [OF length_after_le])

function collapse_periods :: "ustr \<Rightarrow> ustr" where
  \<comment> \<open>\<open>re.sub(r'\.{2,}', '.', text)\<close>\<close>
  "collapse_periods [] = []"
| "collapse_periods (c # s) =
     (if c = ch CHR ''.'' \<and> take 1 s = asc ''.''
      then c # collapse_periods (dropWhile (\<lambda>x. x = ch CHR ''.'') s)
      else c # collapse_periods s)"
  by pat_completeness auto
termination
  by (relation "measure length") (auto simp: less_Suc_eq_le length_dropWhile_le)

fun truthy :: "json \<Rightarrow> bool" where
  \<comment> \<open>the truth value of a value in a condition\<close>
  "truthy JNull = False"
| "truthy (JBool b) = b"
| "truthy (JInt n) = (n \<noteq> 0)"
| "truthy (JFloat x) = (x \<noteq> 0)"
| "truthy (JStr s) = (s \<noteq> [])"
| "truthy (JArr xs) = (xs \<noteq> [])"
| "truthy (JObj kvs) = (kvs \<noteq> [])"

fun py_str :: "pylib \<Rightarrow> json \<Rightarrow> ustr" where
  \<comment> \<open>\<open>str(v)\<close>\<close>
  "py_str L (JStr s) = s"
| "py_str L v = repr L v"

definition clean_text :: "pylib \<Rightarrow> ustr \<Rightarrow> ustr" where
  \<comment> \<open>the passes of \<open>clean_markdown_content\<close>, in the order of the source\<close>
  "clean_text L text0 =
     (let text1 = remove_citations L text0;
          text2 = remove_url_tokens L text1;
          text3 = collapse_images text2;
          text4 = collapse_newlines text3;
          text5 = tighten_punct L text4;
          text6 = collapse_spaces text5;
          text7 = remove_empty_links text6;
          text8 = collapse_periods text7
      in strip L text8)"

definition clean_markdown_content :: "pylib \<Rightarrow> json \<Rightarrow> ustr" where
  "clean_markdown_content L content =
     (if \<not> truthy content then [] else clean_text L (py_str L content))"

definition clean :: "pylib \<Rightarrow> ustr \<Rightarrow> ustr" where
  \<comment> \<open>the cleaner on a string\<close>
  "clean L s = clean_markdown_content L (JStr s)"

section \<open>The content extractor: \<open>extract_clean_content\<close>\<close>

fun contains_sub :: "ustr \<Rightarrow> ustr \<Rightarrow> bool" where
  \<comment> \<open>\<open>p in s\<close> on two strings: \<open>p\<close> occurs in \<open>s\<close>\<close>
  "contains_sub p [] = (p = [])"
| "contains_sub p (c # s) = (startswith (c # s) p \<or> contains_sub p s)"

fun py_in :: "ustr \<Rightarrow> json \<Rightarrow> error + bool" where
  \<comment> \<open>\<open>key in v\<close> for a string \<open>key\<close>: a key of a dict, an element of a list, a substring
      of a string; \<open>TypeError\<close> on a value that is not a container\<close>
  "py_in key (JObj kvs) = Inr (map_of kvs key \<noteq> None)"
| "py_in key (JArr xs) = Inr (JStr key \<in> set xs)"
| "py_in key (JStr s) = Inr (contains_sub key s)"
| "py_in key v = Inl TypeError"

fun getitem :: "json \<Rightarrow> ustr \<Rightarrow> error + json" where
  \<comment> \<open>\<open>v[key]\<close> for a string \<open>key\<close>: only a dict can be indexed by a string\<close>
  "getitem (JObj kvs) key = (case map_of kvs key of Some x \<Rightarrow> Inr x | None \<Rightarrow> Inl KeyError)"
| "getitem v key = Inl TypeError"

fun getitem0 :: "json \<Rightarrow> error + json" where
  \<comment> \<open>\<open>v[0]\<close>: the first element of a list, the first character of a string; a dict
      with string keys has no key \<open>0\<close>, a number, a boolean or \<open>None\<close> cannot be indexed\<close>
  "getitem0 (JArr (x # xs)) = Inr x"
| "getitem0 (JArr []) = Inl IndexError"
| "getitem0 (JStr (c # s)) = Inr (JStr [c])"
| "getitem0 (JStr []) = Inl IndexError"
| "getitem0 (JObj kvs) = Inl KeyError"
| "getitem0 v = Inl TypeError"

fun is_dict :: "json \<Rightarrow> bool" where
  \<comment> \<open>\<open>isinstance(v, dict)\<close>\<close>
  "is_dict (JObj kvs) = True"
| "is_dict v = False"

definition ebind :: "error + 'a \<Rightarrow> ('a \<Rightarrow> error + 'b) \<Rightarrow> error + 'b" where
  \<comment> \<open>an exception ends the evaluation\<close>
  "ebind m f = (case m of Inl e \<Rightarrow> Inl e | Inr x \<Rightarrow> f x)"

definition has_truthy :: "json \<Rightarrow> ustr \<Rightarrow> error + bool" where
  \<comment> \<open>\<open>key in v and v[key]\<close>, as a condition\<close>
  "has_truthy v key =
     ebind (py_in key v) (\<lambda>present.
       if present then ebind (getitem v key) (\<lambda>x. Inr (truthy x)) else Inr False)"

definition actual_result :: "json \<Rightarrow> error + json" where
  \<comment> \<open>the first element of a non-empty \<open>results\<close> field of a dict, else the value itself\<close>
  "actual_result result =
     (if is_dict result then
        ebind (has_truthy result (asc ''results'')) (\<lambda>nested.
          if nested then ebind (getitem result (asc ''results'')) getitem0
          else Inr result)
      else Inr result)"

definition extract_clean_content :: "pylib \<Rightarrow> json \<Rightarrow> error + ustr option" where
  "extract_clean_content L result =
     ebind (actual_result result) (\<lambda>ar.
     ebind (has_truthy ar (asc ''markdown'')) (\<lambda>md.
       if md then
         ebind (getitem ar (asc ''markdown'')) (\<lambda>content.
           Inr (Some (clean_markdown_content L content)))
       else
         ebind (has_truthy ar (asc ''markdown_v2'')) (\<lambda>v2.
           if v2 then
             ebind (getitem ar (asc ''markdown_v2'')) (\<lambda>markdown_v2.
               if is_dict markdown_v2 then
                 ebind (py_in (asc ''raw_markdown'') markdown_v2) (\<lambda>raw.
                   if raw then
                     ebind (getitem markdown_v2 (asc ''raw_markdown'')) (\<lambda>content.
                       Inr (Some (clean_markdown_content L content)))
                   else Inr None)
               else Inr None)
           else Inr None)))"

section \<open>Writing the result: \<open>save_markdown\<close>\<close>

text \<open>
  The program talks to a server, sleeps, prints and writes files. The server, the clock
  and the file system are an environment that the model reads; what the program has done
  so far is a world that it passes along. A request is named by its endpoint: its URL is
  \<open>urljoin(CRAWL4AI_BASE_URL, endpoint)\<close> with a constant base, and the headers are
  constant too. A saved file is kept as the values its template is filled with.
\<close>

datatype reply =
  Raised                        \<comment> \<open>\<open>requests.get\<close> raises\<close>
  | Response nat "json option"  \<comment> \<open>status code and decoded body; no body when
                                    \<open>response.json()\<close> raises\<close>

record env =
  net :: "nat \<Rightarrow> ustr \<Rightarrow> reply"  \<comment> \<open>the reply to the request number \<open>n\<close>, sent to an endpoint\<close>
  stamp :: "nat \<Rightarrow> ustr"        \<comment> \<open>\<open>time.strftime\<close> after \<open>n\<close> requests\<close>
  writable :: "ustr \<Rightarrow> bool"     \<comment> \<open>\<open>open(filename, 'w')\<close> and the write succeed\<close>

datatype msg =
  MsgCompleted          \<comment> \<open>Crawling completed!\<close>
  | MsgNoContent        \<comment> \<open>No content found in completed result\<close>
  | MsgTaskFailed ustr  \<comment> \<open>Task failed: status\<close>
  | MsgStatus ustr      \<comment> \<open>Status: status\<close>
  | MsgTimeout          \<comment> \<open>Timeout waiting for results\<close>
  | MsgSaved ustr       \<comment> \<open>Saved: filename\<close>
  | MsgLength nat       \<comment> \<open>Content length: n characters\<close>

record document =
  doc_url :: ustr
  doc_stamp :: ustr
  doc_content :: ustr

record world =
  requests :: "ustr list"             \<comment> \<open>the endpoints requested, in order\<close>
  slept :: nat                        \<comment> \<open>the seconds slept\<close>
  files :: "(ustr \<times> document) list"  \<comment> \<open>the files written, in order\<close>
  console :: "msg list"               \<comment> \<open>the lines printed, in order\<close>

definition print :: "msg \<Rightarrow> world \<Rightarrow> world" where
  "print m w = w\<lparr>console := console w @ [m]\<rparr>"

definition request :: "ustr \<Rightarrow> world \<Rightarrow> world" where
  \<comment> \<open>a \<open>requests.get\<close> is sent\<close>
  "request e w = w\<lparr>requests := requests w @ [e]\<rparr>"

definition sleep :: "nat \<Rightarrow> world \<Rightarrow> world" where
  "sleep n w = w\<lparr>slept := slept w + n\<rparr>"

definition save_markdown :: "env \<Rightarrow> pylib \<Rightarrow> ustr \<Rightarrow> ustr \<Rightarrow> world \<Rightarrow> error + world" where
  "save_markdown E L content url w =
     (case get_filename_from_url L url of
        Inl e \<Rightarrow> Inl e
      | Inr filename \<Rightarrow>
          if \<not> writable E filename then Inl OSError
          else Inr (print (MsgLength (length content)) (print (MsgSaved filename)
                 (w\<lparr>files := files w @
                    [(filename, \<lparr>doc_url = url, doc_stamp = stamp E (length (requests w)),
                                 doc_content = content\<rparr>)]\<rparr>))))"

section \<open>The poller: \<open>wait_for_completion\<close>\<close>

fun py_get :: "json \<Rightarrow> ustr \<Rightarrow> json \<Rightarrow> error + json" where
  \<comment> \<open>\<open>v.get(key, default)\<close>: only a dict has the method\<close>
  "py_get (JObj kvs) key dflt = (case map_of kvs key of Some x \<Rightarrow> Inr x | None \<Rightarrow> Inr dflt)"
| "py_get v key dflt = Inl AttributeError"

definition status_of :: "pylib \<Rightarrow> json \<Rightarrow> error + ustr" where
  \<comment> \<open>\<open>str(result.get('status', '')).lower()\<close>\<close>
  "status_of L result =
     ebind (py_get result (asc ''status'') (JStr [])) (\<lambda>st. Inr (lower L (py_str L st)))"

definition completed_states :: "ustr list" where
  "completed_states = map asc [''completed'', ''success'', ''finished'']"

definition failed_states :: "ustr list" where
  "failed_states = map asc [''failed'', ''error'']"

definition pending_states :: "ustr list" where
  "pending_states = map asc [''pending'', ''running'']"

datatype outcome =
  Return bool  \<comment> \<open>\<open>return\<close> from the function\<close>
  | Break      \<comment> \<open>\<open>break\<close>: the round ends\<close>
  | Continue   \<comment> \<open>the next endpoint of the round: the end of the loop body, or \<open>continue\<close>
                   in the bare \<open>except\<close>\<close>

definition on_completed :: "env \<Rightarrow> pylib \<Rightarrow> ustr \<Rightarrow> json \<Rightarrow> world \<Rightarrow> outcome \<times> world" where
  \<comment> \<open>the branch of a completed status; an exception of the extractor or of the write
      is caught by the bare \<open>except\<close>\<close>
  "on_completed E L target_url result w =
     (let w1 = print MsgCompleted w in
      case ebind (py_get result (asc ''result'') result) (extract_clean_content L) of
        Inl e \<Rightarrow> (Continue, w1)
      | Inr content \<Rightarrow>
          (case content of
             Some (c # cs) \<Rightarrow>
               (case save_markdown E L (c # cs) target_url w1 of
                  Inl e \<Rightarrow> (Continue, w1)
                | Inr w2 \<Rightarrow> (Return True, w2))
           | _ \<Rightarrow> (Return False, print MsgNoContent w1)))"

definition attempt :: "env \<Rightarrow> pylib \<Rightarrow> ustr \<Rightarrow> ustr \<Rightarrow> world \<Rightarrow> outcome \<times> world" where
  \<comment> \<open>the body of the inner loop, for one endpoint\<close>
  "attempt E L target_url endpoint w =
     (let w1 = request endpoint w in
      case net E (length (requests w)) endpoint of
        Raised \<Rightarrow> (Continue, w1)
      | Response code body \<Rightarrow>
          if code \<noteq> 200 then (Continue, w1)
          else
            (case body of
               None \<Rightarrow> (Continue, w1)
             | Some result \<Rightarrow>
                 (case status_of L result of
                    Inl e \<Rightarrow> (Continue, w1)
                  | Inr status \<Rightarrow>
                      if status \<in> set completed_states
                        then on_completed E L target_url result w1
                      else if status \<in> set failed_states
                        then (Return False, print (MsgTaskFailed status) w1)
                      else if status \<in> set pending_states
                        then (Break, print (MsgStatus status) w1)
                      else (Continue, w1))))"

fun poll_round :: "env \<Rightarrow> pylib \<Rightarrow> ustr \<Rightarrow> ustr list \<Rightarrow> world \<Rightarrow> bool option \<times> world" where
  \<comment> \<open>\<open>for endpoint in endpoints\<close>: the value returned, if the function returns in this
      round\<close>
  "poll_round E L target_url [] w = (None, w)"
| "poll_round E L target_url (endpoint # rest) w =
     (case attempt E L target_url endpoint w of
        (Return b, w') \<Rightarrow> (Some b, w')
      | (Break, w') \<Rightarrow> (None, w')
      | (Continue, w') \<Rightarrow> poll_round E L target_url rest w')"

fun poll_rounds :: "env \<Rightarrow> pylib \<Rightarrow> ustr \<Rightarrow> ustr list \<Rightarrow> nat \<Rightarrow> world \<Rightarrow> bool \<times> world" where
  \<comment> \<open>\<open>for attempt in range(n)\<close>, then the timeout\<close>
  "poll_rounds E L target_url endpoints 0 w = (False, print MsgTimeout w)"
| "poll_rounds E L target_url endpoints (Suc n) w =
     (case poll_round E L target_url endpoints w of
        (Some b, w') \<Rightarrow> (b, w')
      | (None, w') \<Rightarrow> poll_rounds E L target_url endpoints n (sleep 5 w'))"

definition endpoints_of :: "pylib \<Rightarrow> json \<Rightarrow> ustr list" where
  "endpoints_of L task_id =
     [asc ''/task/'' @ py_str L task_id, asc ''/tasks/'' @ py_str L task_id,
      asc ''/result/'' @ py_str L task_id]"

definition wait_for_completion :: "env \<Rightarrow> pylib \<Rightarrow> json \<Rightarrow> ustr \<Rightarrow> world \<Rightarrow> bool \<times> world" where
  "wait_for_completion E L task_id target_url w =
     poll_rounds E L target_url (endpoints_of L task_id) 24 w"

section \<open>An instance of the library\<close>

text \<open>
  The tables with nothing beyond ASCII, with the two checks of \<open>urllib.parse\<close> always
  passing and a placeholder for \<open>str()\<close> of a value that is not a string. The examples
  below are ASCII strings without brackets and read \<open>str()\<close> of strings only: every
  instance of the library computes the same on them.
\<close>

definition ascii_tables :: pylib where
  "ascii_tables =
     \<lparr>udigit = (\<lambda>_. False), uspace = (\<lambda>_. False), uword = (\<lambda>_. False),
      ulower = (\<lambda>s. s), bracketed_ok = (\<lambda>_. True), nfkc_ok = (\<lambda>_. True),
      repr = (\<lambda>_. asc ''<repr>'')\<rparr>"

section \<open>Predicates of the statements\<close>


definition http_prefixed :: "ustr \<Rightarrow> bool" where
  "http_prefixed s \<longleftrightarrow> startswith s (asc ''http://'') \<or> startswith s (asc ''https://'')"

definition name_char :: "nat \<Rightarrow> bool" where
  \<comment> \<open>an ASCII letter, a digit, the underscore or the hyphen\<close>
  "name_char c \<longleftrightarrow>
     ascii_letter c \<or> ascii_digit c \<or> c = ch CHR ''_'' \<or> c = ch CHR ''-''"

definition effective_is_object :: "json \<Rightarrow> bool" where
  \<comment> \<open>the body is an object, and its \<open>results\<close> field is absent, falsy or a list whose
      first element is an object\<close>
  "effective_is_object body =
     (case body of
        JObj kvs \<Rightarrow>
          (case map_of kvs (asc ''results'') of
             None \<Rightarrow> True
           | Some r \<Rightarrow>
               if truthy r then (case r of JArr (x # xs) \<Rightarrow> is_dict x | _ \<Rightarrow> False)
               else True)
      | _ \<Rightarrow> False)"

definition non200 :: "reply \<Rightarrow> bool" where
  \<comment> \<open>a response arrives, with a status code other than 200\<close>
  "non200 r = (case r of Response code body \<Rightarrow> code \<noteq> 200 | Raised \<Rightarrow> False)"

fun continues :: "env \<Rightarrow> pylib \<Rightarrow> ustr \<Rightarrow> ustr list \<Rightarrow> world \<Rightarrow> world option" where
  \<comment> \<open>the world behind these candidates, when the round goes on after each of them\<close>
  "continues E L url [] w = Some w"
| "continues E L url (e # es) w =
     (case attempt E L url e w of
        (Continue, w') \<Rightarrow> continues E L url es w'
      | _ \<Rightarrow> None)"

definition completed_miss :: "env \<Rightarrow> pylib \<Rightarrow> ustr \<Rightarrow> world \<Rightarrow> bool" where
  \<comment> \<open>the reply to the next request, sent to \<open>e\<close>, is a 200 with a completed status, and
      the extractor returns \<open>None\<close> or the empty string on its result\<close>
  "completed_miss E L e w =
     (case net E (length (requests w)) e of
        Response code (Some result) \<Rightarrow>
          code = 200 \<and>
          (case status_of L result of
             Inr status \<Rightarrow>
               status \<in> set completed_states \<and>
               (case ebind (py_get result (asc ''result'') result) (extract_clean_content L) of
                  Inr None \<Rightarrow> True
                | Inr (Some []) \<Rightarrow> True
                | _ \<Rightarrow> False)
           | Inl e \<Rightarrow> False)
      | _ \<Rightarrow> False)"

section \<open>Invariants of the cleaner's passes\<close>

definition no_dotdot :: "nat \<Rightarrow> nat \<Rightarrow> bool" where
  \<comment> \<open>the two characters are not both periods\<close>
  "no_dotdot x y \<longleftrightarrow> \<not> (x = ch CHR ''.'' \<and> y = ch CHR ''.'')"

definition noblanks :: "nat \<Rightarrow> nat \<Rightarrow> bool" where
  \<comment> \<open>the two characters are not both blanks\<close>
  "noblanks x y \<longleftrightarrow> \<not> (blank x \<and> blank y)"

definition blanks_ok :: "ustr \<Rightarrow> bool" where
  \<comment> \<open>every run of blanks is a single space\<close>
  "blanks_ok s \<longleftrightarrow> 9 \<notin> set s \<and> successively noblanks s"

fun nlfree :: "nat \<Rightarrow> ustr \<Rightarrow> bool" where
  \<comment> \<open>no three newlines in a row, with \<open>k\<close> newlines just before the text\<close>
  "nlfree k [] = True"
| "nlfree k (c # s) = (if c = NL then k < 2 \<and> nlfree (Suc k) s else nlfree 0 s)"

definition no_space_punct :: "pylib \<Rightarrow> nat \<Rightarrow> nat \<Rightarrow> bool" where
  \<comment> \<open>no whitespace directly before a punctuation mark\<close>
  "no_space_punct L x y \<longleftrightarrow> \<not> (isspace L x \<and> punct y)"

definition fires :: "pylib \<Rightarrow> nat \<Rightarrow> ustr \<Rightarrow> bool" where
  \<comment> \<open>the pass removes the whitespace that starts with \<open>c\<close>\<close>
  "fires L c s \<longleftrightarrow> isspace L c \<and> punct_after_spaces L s"

fun tokens :: "pylib \<Rightarrow> ustr \<Rightarrow> ustr \<Rightarrow> ustr list" where
  \<comment> \<open>the maximal runs of word characters, \<open>cur\<close> being the run under way\<close>
  "tokens L cur [] = (if cur = [] then [] else [cur])"
| "tokens L cur (c # s) =
     (if isword L c then tokens L (cur @ [c]) s
      else (if cur = [] then [] else [cur]) @ tokens L [] s)"

definition spaces_not_words :: "pylib \<Rightarrow> bool" where
  \<comment> \<open>no character is both whitespace and a word character\<close>
  "spaces_not_words L \<longleftrightarrow> (\<forall>c. \<not> (isspace L c \<and> isword L c))"

definition keepfirst :: "ustr \<Rightarrow> ustr list \<Rightarrow> ustr list" where
  \<comment> \<open>the placeholder is dropped from the runs, but for a run under way\<close>
  "keepfirst cur xs =
     (if cur = [] then filter (\<lambda>t. t \<noteq> asc ''URL'') xs
      else hd xs # filter (\<lambda>t. t \<noteq> asc ''URL'') (tl xs))"

definition matches :: "pylib \<Rightarrow> bool \<Rightarrow> ustr \<Rightarrow> bool" where
  \<comment> \<open>\<open>\bURL\b\<close> matches at the head of the string\<close>
  "matches L pw s \<longleftrightarrow>
     take 3 s = asc ''URL'' \<and> \<not> pw \<and> \<not> (drop 3 s \<noteq> [] \<and> isword L (hd (drop 3 s)))"

definition plain :: "ustr \<Rightarrow> bool" where
  \<comment> \<open>neither an opening square bracket nor the citation bracket U+27E8 occurs\<close>
  "plain s \<longleftrightarrow> ch CHR ''['' \<notin> set s \<and> LANGLE \<notin> set s"

definition plain_passes :: "pylib \<Rightarrow> ustr \<Rightarrow> ustr" where
  \<comment> \<open>the passes that can change a plain text, in their order\<close>
  "plain_passes L s =
     strip L (collapse_periods (collapse_spaces (tighten_punct L (collapse_newlines
       (remove_url_tokens L s)))))"

section \<open>Environments of the examples\<close>

definition world0 :: world where
  "world0 = \<lparr>requests = [], slept = 0, files = [], console = []\<rparr>"

definition env_404 :: env where
  "env_404 = \<lparr>net = (\<lambda>n e. Response 404 None), stamp = (\<lambda>n. asc ''2025-06-22 10:00:00''),
     writable = (\<lambda>f. True)\<rparr>"



definition body_empty :: json where
  "body_empty = JObj [(asc ''status'', JStr (asc ''completed'')), (asc ''result'', JObj [])]"

definition body_null :: json where
  "body_null = JObj [(asc ''status'', JStr (asc ''completed'')), (asc ''result'', JNull)]"

definition env_null :: env where
  "env_null = \<lparr>net = (\<lambda>n e. Response 200 (Some body_null)),
     stamp = (\<lambda>n. asc ''2025-06-22 10:00:00''), writable = (\<lambda>f. True)\<rparr>"


definition env_empty :: env where
  "env_empty = \<lparr>net = (\<lambda>n e. if n = 0 then Response 404 None
       else Response 200 (Some body_empty)),
     stamp = (\<lambda>n. asc ''2025-06-22 10:00:00''), writable = (\<lambda>f. True)\<rparr>"

section \<open>Properties of the URL normalizer and of the file name\<close>

lemmas class_defs = is_ascii_def ascii_upper_def ascii_lower_def ascii_letter_def
  ascii_digit_def ascii_space_def isdigit_def isspace_def isword_def to_lower_def lower_def
  printable_def BACKSLASH_def

lemmas str_defs = startswith_def strip_chars_def strip_def before_def after_def rbefore_def
  rafter_def

lemmas url_defs = scheme_char_def uses_params_def split_scheme_def netloc_delim_def
  splitnetloc_def check_brackets_def checknetloc_def splitparams_def urlparse_def
  hostname_def url_hostname_def










lemma sublist_strip_chars: "sublist (strip_chars P s) s"
proof -
  have "sublist (dropWhile P (rev (dropWhile P s))) (rev (dropWhile P s))" by simp
  moreover have "sublist (rev (dropWhile P s)) (rev s)" by simp
  ultimately have "sublist (dropWhile P (rev (dropWhile P s))) (rev s)"
    by (rule sublist_order.order_trans)
  then show ?thesis by (simp add: strip_chars_def sublist_rev_left)
qed


lemma strip_chars_ends:
  assumes "strip_chars P s \<noteq> []"
  shows "\<not> P (hd (strip_chars P s))" and "\<not> P (last (strip_chars P s))"
proof -
  let ?d = "dropWhile P s"
  let ?e = "dropWhile P (rev ?d)"
  from assms have e: "?e \<noteq> []" by (simp add: strip_chars_def)
  have d: "?d \<noteq> []"
  proof
    assume a: "?d = []"
    from e show False unfolding a by simp
  qed
  have "rev ?d = takeWhile P (rev ?d) @ ?e" by simp
  then have "?d = rev ?e @ rev (takeWhile P (rev ?d))"
    by (metis rev_append rev_rev_ident)
  then have "hd ?d = hd (rev ?e)" using e by (metis hd_append2 rev_is_Nil_conv)
  moreover have "\<not> P (hd ?d)" using d by (rule hd_dropWhile)
  ultimately show "\<not> P (hd (strip_chars P s))" by (simp add: strip_chars_def)
  have "\<not> P (hd ?e)" using e by (rule hd_dropWhile)
  then show "\<not> P (last (strip_chars P s))" using e by (simp add: strip_chars_def last_rev)
qed

lemma strip_chars_id:
  assumes "s \<noteq> []" "\<not> P (hd s)" "\<not> P (last s)"
  shows "strip_chars P s = s"
proof -
  from assms have "dropWhile P s = s" by (cases s) auto
  moreover from assms have "dropWhile P (rev s) = rev s"
    by (cases "rev s") (auto simp: last_rev [symmetric] simp del: last_rev)
  ultimately show ?thesis by (simp add: strip_chars_def)
qed

lemma accepted_shape:
  assumes "clean_and_validate_url L u = Inr (Some v)"
  obtains w p where
    "w = strip L (filter printable (remove_rtf_commands L (remove_rtf_groups u)))"
    "w \<noteq> []" "v = (if http_prefixed w then w else asc ''https://'' @ w)"
    "urlparse L v = Inr p" "netloc p \<noteq> []" "scheme p \<noteq> []"
proof -
  let ?w = "strip L (filter printable (remove_rtf_commands L (remove_rtf_groups u)))"
  let ?v = "if http_prefixed ?w then ?w else asc ''https://'' @ ?w"
  have eq: "clean_and_validate_url L u =
      (if u = [] \<or> ?w = [] \<or> startswith ?w (asc ''#'') then Inr None
       else case urlparse L ?v of Inl e \<Rightarrow> Inl e
            | Inr parsed \<Rightarrow> if netloc parsed = [] \<or> scheme parsed = [] then Inr None
                 else Inr (Some ?v))"
    by (simp add: clean_and_validate_url_def Let_def http_prefixed_def)
  from assms have a: "?w \<noteq> []" unfolding eq by (simp split: if_splits)
  from assms a obtain p where p: "urlparse L ?v = Inr p"
    unfolding eq by (cases "urlparse L ?v") (simp_all split: if_splits)
  from assms a have b: "netloc p \<noteq> [] \<and> scheme p \<noteq> [] \<and> v = ?v"
    unfolding eq p by (simp split: if_splits)
  show thesis
    by (rule that [of ?w p]) (use a b p in simp_all)
qed

lemma startswith_append: "startswith s p \<longleftrightarrow> (\<exists>r. s = p @ r)"
  unfolding startswith_def by (metis append_eq_conv_conj append_take_drop_id)

lemma accepted_prefixed:
  assumes "clean_and_validate_url L u = Inr (Some v)"
  shows "http_prefixed v"
proof -
  from assms obtain w where "v = (if http_prefixed w then w else asc ''https://'' @ w)"
    by (rule accepted_shape)
  then show ?thesis by (auto simp: http_prefixed_def startswith_def)
qed

lemma accepted_printable:
  assumes "clean_and_validate_url L u = Inr (Some v)"
  shows "list_all printable v"
proof -
  from assms obtain w where
    w: "w = strip L (filter printable (remove_rtf_commands L (remove_rtf_groups u)))"
    and v: "v = (if http_prefixed w then w else asc ''https://'' @ w)"
    by (rule accepted_shape)
  have "set w \<subseteq> set (filter printable (remove_rtf_commands L (remove_rtf_groups u)))"
    unfolding w strip_def by (rule set_mono_sublist [OF sublist_strip_chars])
  then have "list_all printable w" by (auto simp: list_all_iff)
  with v show ?thesis by (auto simp: printable_def)
qed




lemma accepted_parse:
  assumes "clean_and_validate_url L u = Inr (Some v)"
  obtains p where "urlparse L v = Inr p" "netloc p \<noteq> []" "scheme p \<noteq> []"
  using assms by (rule accepted_shape) auto

lemma urlparse_http_scheme:
  assumes "urlparse L v = Inr p" and "http_prefixed v"
  shows "scheme p = asc ''http'' \<or> scheme p = asc ''https''"
proof -
  from assms(2) consider r where "v = asc ''http://'' @ r" | r where "v = asc ''https://'' @ r"
    by (auto simp: http_prefixed_def startswith_append)
  then show ?thesis
  proof cases
    case 1
    have "split_scheme (filter (\<lambda>c. c \<notin> {9, 13, 10}) (dropWhile (\<lambda>c. c \<le> 32) v))
        = (asc ''http'', asc ''//'' @ filter (\<lambda>c. c \<notin> {9, 13, 10}) r)"
      unfolding 1 by (simp add: split_scheme_def before_def after_def scheme_char_def
        ascii_letter_def ascii_lower_def ascii_upper_def ascii_digit_def to_lower_def)
    with assms(1) show ?thesis
      by (auto simp: urlparse_def Let_def split: if_splits prod.splits)
  next
    case 2
    have "split_scheme (filter (\<lambda>c. c \<notin> {9, 13, 10}) (dropWhile (\<lambda>c. c \<le> 32) v))
        = (asc ''https'', asc ''//'' @ filter (\<lambda>c. c \<notin> {9, 13, 10}) r)"
      unfolding 2 by (simp add: split_scheme_def before_def after_def scheme_char_def
        ascii_letter_def ascii_lower_def ascii_upper_def ascii_digit_def to_lower_def)
    with assms(1) show ?thesis
      by (auto simp: urlparse_def Let_def split: if_splits prod.splits)
  qed
qed

lemma set_before: "set (before c s) \<subseteq> set s"
  unfolding before_def by (auto dest: set_takeWhileD)

lemma set_after: "set (after c s) \<subseteq> set s"
  unfolding after_def by (auto dest: in_set_dropD set_dropWhileD)

lemma set_rafter: "set (rafter c s) \<subseteq> set s"
  unfolding rafter_def using set_before [of c "rev s"] by simp

lemma set_rbefore: "set (rbefore c s) \<subseteq> set s"
  unfolding rbefore_def using set_after [of c "rev s"] by simp

lemma set_split_scheme: "set (snd (split_scheme s)) \<subseteq> set s"
  unfolding split_scheme_def Let_def using set_after [of "ch CHR '':''" s] by simp

lemma set_splitnetloc:
  "set (fst (splitnetloc s)) \<subseteq> set s" "set (snd (splitnetloc s)) \<subseteq> set s"
  unfolding splitnetloc_def by (auto dest: in_set_dropD set_dropWhileD set_takeWhileD)

lemma set_splitparams: "set (fst (splitparams s)) \<subseteq> set s"
  unfolding splitparams_def Let_def
  using set_rbefore [of "ch CHR ''/''" s] set_rafter [of "ch CHR ''/''" s]
    set_before [of "ch CHR '';''" "ch CHR ''/'' # rafter (ch CHR ''/'') s"]
    set_before [of "ch CHR '';''" s]
  by auto

lemma urlparse_sets:
  assumes "urlparse L v = Inr p"
  shows "set (netloc p) \<subseteq> set v" and "set (path p) \<subseteq> set v"
proof -
  let ?u2 = "filter (\<lambda>c. c \<notin> {9, 13, 10}) (dropWhile (\<lambda>c. c \<le> 32) v)"
  let ?u3 = "snd (split_scheme ?u2)"
  let ?nl = "if take 2 ?u3 = asc ''//'' then fst (splitnetloc ?u3) else []"
  let ?u4 = "if take 2 ?u3 = asc ''//'' then snd (splitnetloc ?u3) else ?u3"
  let ?u5 = "if ch CHR ''#'' \<in> set ?u4 then before (ch CHR ''#'') ?u4 else ?u4"
  let ?u6 = "if ch CHR ''?'' \<in> set ?u5 then before (ch CHR ''?'') ?u5 else ?u5"
  have 2: "set ?u2 \<subseteq> set v" by (auto dest: set_dropWhileD)
  have 3: "set ?u3 \<subseteq> set v" using set_split_scheme [of ?u2] 2 by blast
  have nl: "set ?nl \<subseteq> set v" using set_splitnetloc(1) [of ?u3] 3 by auto
  have 4: "set ?u4 \<subseteq> set v" using set_splitnetloc(2) [of ?u3] 3 by auto
  have 5: "set ?u5 \<subseteq> set v" using set_before [of "ch CHR ''#''" ?u4] 4 by auto
  have 6: "set ?u6 \<subseteq> set v" using set_before [of "ch CHR ''?''" ?u5] 5 by auto
  have 7: "set (fst (splitparams ?u6)) \<subseteq> set v" using set_splitparams [of ?u6] 6 by blast
  from assms have "netloc p = ?nl"
    by (auto simp: urlparse_def Let_def split: if_splits prod.splits)
  with nl show "set (netloc p) \<subseteq> set v" by simp
  from assms have "path p = ?u6 \<or> path p = fst (splitparams ?u6)"
    by (auto simp: urlparse_def Let_def split: if_splits prod.splits)
  with 6 7 show "set (path p) \<subseteq> set v" by auto
qed


lemma set_replace_www: "set (replace_www s) \<subseteq> set s"
  by (induction s rule: replace_www.induct) auto

lemma sanitize_ascii:
  assumes "list_all is_ascii s"
  shows "list_all name_char (sanitize L s)"
  using assms by (auto simp: list_all_iff sanitize_def isword_def name_char_def)

lemma lower_ascii:
  assumes "list_all is_ascii s"
  shows "list_all is_ascii (lower L s)"
  using assms
  by (auto simp: list_all_iff lower_def to_lower_def is_ascii_def ascii_upper_def)

lemma hostname_ascii:
  assumes "list_all is_ascii (netloc p)" and "hostname L p = Some h"
  shows "list_all is_ascii h"
proof -
  let ?hi = "rafter (ch CHR ''@'') (netloc p)"
  let ?h0 = "if ch CHR ''['' \<in> set ?hi
             then before (ch CHR '']'') (after (ch CHR ''['') ?hi)
             else before (ch CHR '':'') ?hi"
  have hi: "list_all is_ascii ?hi"
    using assms(1) set_rafter [of "ch CHR ''@''" "netloc p"] by (auto simp: list_all_iff)
  have "set ?h0 \<subseteq> set ?hi"
    using set_before [of "ch CHR '']''" "after (ch CHR ''['') ?hi"]
      set_after [of "ch CHR ''[''" ?hi] set_before [of "ch CHR '':''" ?hi]
    by auto
  with hi have h0: "list_all is_ascii ?h0" by (auto simp: list_all_iff)
  then have "list_all is_ascii (before (ch CHR ''%'') ?h0)"
    using set_before [of "ch CHR ''%''" ?h0] by (auto simp: list_all_iff)
  then have a: "list_all is_ascii (lower L (before (ch CHR ''%'') ?h0))"
    by (rule lower_ascii)
  have b: "list_all is_ascii (dropWhile (\<lambda>c. c \<noteq> ch CHR ''%'') ?h0)"
    using h0 by (auto simp: list_all_iff dest: set_dropWhileD)
  from assms(2) have "h = lower L (before (ch CHR ''%'') ?h0)
      @ dropWhile (\<lambda>c. c \<noteq> ch CHR ''%'') ?h0"
    by (simp add: hostname_def Let_def split: if_splits)
  with a b show ?thesis by simp
qed

lemma filename_shape:
  assumes "urlparse L v = Inr p" and "list_all is_ascii v"
  shows "\<exists>stem. get_filename_from_url L v = Inr (stem @ asc ''.md'') \<and> list_all name_char stem"
proof -
  let ?host0 = "case hostname L p of Some h \<Rightarrow> replace_www h | None \<Rightarrow> asc ''unknown''"
  let ?pth = "strip_chars (\<lambda>c. c = ch CHR ''/'') (path p)"
  let ?page0 = "rafter (ch CHR ''/'') ?pth"
  let ?page1 = "if ch CHR ''.'' \<in> set ?page0 then before (ch CHR ''.'') ?page0 else ?page0"
  have nl: "list_all is_ascii (netloc p)" and pa: "list_all is_ascii (path p)"
    using urlparse_sets [OF assms(1)] assms(2) by (auto simp: list_all_iff)
  have "list_all is_ascii ?host0"
  proof (cases "hostname L p")
    case None
    then show ?thesis by (simp add: is_ascii_def)
  next
    case (Some h)
    with nl have "list_all is_ascii h" by (rule hostname_ascii)
    with Some show ?thesis using set_replace_www [of h] by (auto simp: list_all_iff)
  qed
  then have host: "list_all name_char (sanitize L ?host0)" by (rule sanitize_ascii)
  have "set ?pth \<subseteq> set (path p)" by (rule set_mono_sublist [OF sublist_strip_chars])
  moreover have "set ?page0 \<subseteq> set ?pth" by (rule set_rafter)
  moreover have "set ?page1 \<subseteq> set ?page0"
    using set_before [of "ch CHR ''.''" ?page0] by simp
  ultimately have "set ?page1 \<subseteq> set (path p)" by (meson order_trans)
  then have "list_all is_ascii ?page1" using pa unfolding list_all_iff by blast
  then have page: "list_all name_char (sanitize L ?page1)" by (rule sanitize_ascii)
  have dash: "list_all name_char (asc ''-'')" by (simp add: name_char_def)
  have "get_filename_from_url L v = Inr (sanitize L ?host0 @ asc ''.md'')
      \<or> get_filename_from_url L v
          = Inr ((sanitize L ?host0 @ asc ''-'' @ sanitize L ?page1) @ asc ''.md'')"
    by (simp add: get_filename_from_url_def assms(1) Let_def)
  with host page dash show ?thesis
    by (metis list_all_append)
qed


text \<open>
  C1, as the code has it. The host's dots are removed, not turned into hyphens: for the
  input \<open>example.com/blog/my-post.html\<close> the normalizer yields
  \<open>https://example.com/blog/my-post.html\<close> and the file name is
  \<open>examplecom-my-post.md\<close>; for \<open>https://example.com/\<close> the file name is
  \<open>examplecom.md\<close>.
\<close>

theorem C1_scenarios:
  "clean_and_validate_url L (asc ''example.com/blog/my-post.html'')
     = Inr (Some (asc ''https://example.com/blog/my-post.html''))
   \<and> get_filename_from_url L (asc ''https://example.com/blog/my-post.html'')
     = Inr (asc ''examplecom-my-post.md'')
   \<and> get_filename_from_url L (asc ''https://example.com/'') = Inr (asc ''examplecom.md'')"
  by (simp add: clean_and_validate_url_def get_filename_from_url_def sanitize_def
      class_defs str_defs url_defs)

text \<open>
  C1 as stated fails: the file name of \<open>https://example.com/blog/my-post.html\<close> is not
  \<open>example-com-my-post.md\<close>.
\<close>

theorem C1_counterexample:
  "get_filename_from_url ascii_tables (asc ''https://example.com/blog/my-post.html'')
     = Inr (asc ''examplecom-my-post.md'')
   \<and> get_filename_from_url ascii_tables (asc ''https://example.com/blog/my-post.html'')
     \<noteq> Inr (asc ''example-com-my-post.md'')"
  by (simp add: get_filename_from_url_def sanitize_def class_defs str_defs url_defs)





text \<open>
  C4, amended: every URL the normalizer accepts parses with the scheme \<open>http\<close> or
  \<open>https\<close> and a non-empty network location (the authority). The host inside the
  authority may be empty.
\<close>

theorem C4_scheme_and_netloc:
  assumes "clean_and_validate_url L u = Inr (Some v)"
  shows "\<exists>p. urlparse L v = Inr p
    \<and> (scheme p = asc ''http'' \<or> scheme p = asc ''https'') \<and> netloc p \<noteq> []"
proof -
  from assms obtain p where p: "urlparse L v = Inr p" "netloc p \<noteq> []"
    by (rule accepted_parse)
  moreover have "scheme p = asc ''http'' \<or> scheme p = asc ''https''"
    using p(1) accepted_prefixed [OF assms] by (rule urlparse_http_scheme)
  ultimately show ?thesis by blast
qed



theorem C4_witness:
  "clean_and_validate_url ascii_tables (asc ''example.com/a'')
     = Inr (Some (asc ''https://example.com/a''))
   \<and> (\<exists>p. urlparse ascii_tables (asc ''https://example.com/a'') = Inr p
        \<and> (scheme p = asc ''http'' \<or> scheme p = asc ''https'') \<and> netloc p \<noteq> [])"
proof -
  have h: "clean_and_validate_url ascii_tables (asc ''example.com/a'')
      = Inr (Some (asc ''https://example.com/a''))"
    by (simp add: clean_and_validate_url_def class_defs str_defs url_defs)
  show ?thesis using h C4_scheme_and_netloc [OF h] by simp
qed

text \<open>
  C4 as stated fails: \<open>https://:80\<close> is accepted, its network location is \<open>:80\<close> and
  its host is empty (\<open>hostname\<close> is \<open>None\<close>).
\<close>

theorem C4_counterexample:
  "clean_and_validate_url ascii_tables (asc ''https://:80'') = Inr (Some (asc ''https://:80''))
   \<and> url_hostname ascii_tables (asc ''https://:80'') = Inr None"
  by (simp add: clean_and_validate_url_def class_defs str_defs url_defs)

text \<open>
  C10: for every URL the normalizer accepts, the file name is a stem of ASCII letters,
  digits, underscores and hyphens followed by \<open>.md\<close>.
\<close>

theorem C10_filename_safe:
  assumes "clean_and_validate_url L u = Inr (Some v)"
  shows "\<exists>stem. get_filename_from_url L v = Inr (stem @ asc ''.md'') \<and> list_all name_char stem"
proof -
  from assms obtain p where p: "urlparse L v = Inr p" by (rule accepted_parse)
  have "list_all is_ascii v"
    using accepted_printable [OF assms] by (auto simp: list_all_iff printable_def is_ascii_def)
  with p show ?thesis by (rule filename_shape)
qed


theorem C10_witness:
  "clean_and_validate_url ascii_tables (asc ''example.com/a b/c d.html'')
     = Inr (Some (asc ''https://example.com/a b/c d.html''))
   \<and> (\<exists>stem. get_filename_from_url ascii_tables (asc ''https://example.com/a b/c d.html'')
          = Inr (stem @ asc ''.md'') \<and> list_all name_char stem)"
proof -
  have h: "clean_and_validate_url ascii_tables (asc ''example.com/a b/c d.html'')
      = Inr (Some (asc ''https://example.com/a b/c d.html''))"
    by (simp add: clean_and_validate_url_def class_defs str_defs url_defs)
  show ?thesis using h C10_filename_safe [OF h] by simp
qed


section \<open>Properties of the extractor\<close>

lemmas clean_defs = clean_def clean_markdown_content_def clean_text_def
  remove_url_tokens_def image_match_def LANGLE_def RANGLE_def NL_def punct_def blank_def
  punct_after_spaces_def

lemmas json_defs = ebind_def has_truthy_def actual_result_def extract_clean_content_def
  status_of_def

lemma is_dictE: "is_dict v \<Longrightarrow> (\<And>kvs. v = JObj kvs \<Longrightarrow> P) \<Longrightarrow> P"
  by (cases v) auto

lemma has_truthy_dict: "\<exists>b. has_truthy (JObj kvs) key = Inr b"
  by (cases "map_of kvs key") (auto simp: has_truthy_def ebind_def)

lemma extract_dict:
  assumes "actual_result body = Inr (JObj kvs)"
  shows "\<exists>r. extract_clean_content L body = Inr r"
proof -
  obtain md where md: "has_truthy (JObj kvs) (asc ''markdown'') = Inr md"
    using has_truthy_dict by blast
  obtain v2 where v2: "has_truthy (JObj kvs) (asc ''markdown_v2'') = Inr v2"
    using has_truthy_dict by blast
  show ?thesis
  proof (cases md)
    case True
    with md show ?thesis
      by (cases "map_of kvs (asc ''markdown'')")
         (simp_all add: extract_clean_content_def assms ebind_def has_truthy_def)
  next
    case False
    note nomd = this
    show ?thesis
    proof (cases v2)
      case False
      with md v2 nomd show ?thesis
        by (simp add: extract_clean_content_def assms ebind_def)
    next
      case True
      then obtain x where x: "map_of kvs (asc ''markdown_v2'') = Some x"
        using v2 by (cases "map_of kvs (asc ''markdown_v2'')")
          (simp_all add: has_truthy_def ebind_def)
      have "\<exists>r. (if is_dict x then
                 ebind (py_in (asc ''raw_markdown'') x) (\<lambda>raw.
                   if raw then
                     ebind (getitem x (asc ''raw_markdown'')) (\<lambda>content.
                       Inr (Some (clean_markdown_content L content)))
                   else Inr None)
               else Inr None) = Inr r"
      proof (cases "is_dict x")
        case False
        then show ?thesis by simp
      next
        case True
        then obtain kv where "x = JObj kv" by (rule is_dictE)
        then show ?thesis
          by (cases "map_of kv (asc ''raw_markdown'')") (simp_all add: ebind_def)
      qed
      with md v2 nomd True x show ?thesis
        by (simp add: extract_clean_content_def assms ebind_def)
    qed
  qed
qed

lemma actual_result_object:
  assumes "effective_is_object body"
  shows "\<exists>kvs. actual_result body = Inr (JObj kvs)"
proof -
  from assms obtain kvs where b: "body = JObj kvs"
    by (cases body) (simp_all add: effective_is_object_def)
  show ?thesis
  proof (cases "map_of kvs (asc ''results'')")
    case None
    then show ?thesis by (simp add: b actual_result_def has_truthy_def ebind_def)
  next
    case (Some r)
    show ?thesis
    proof (cases "truthy r")
      case False
      with Some show ?thesis by (simp add: b actual_result_def has_truthy_def ebind_def)
    next
      case True
      with assms Some obtain x xs kv where "r = JArr (x # xs)" "x = JObj kv"
        by (auto simp: b effective_is_object_def split: json.splits list.splits elim: is_dictE)
      with Some True show ?thesis
        by (simp add: b actual_result_def has_truthy_def ebind_def)
    qed
  qed
qed

text \<open>
  On a body that is an object, whose \<open>results\<close> field is absent, falsy or a list with an
  object first, the extractor returns (content or \<open>None\<close>) and does not raise.
\<close>

lemma extract_total_on_objects:
  assumes "effective_is_object body"
  shows "\<exists>r. extract_clean_content L body = Inr r"
  using actual_result_object [OF assms] extract_dict by blast

lemma extract_total_on_objects_example:
  "effective_is_object (JObj [(asc ''markdown'', JStr (asc ''Hello World''))])
   \<and> (\<exists>r. extract_clean_content ascii_tables
          (JObj [(asc ''markdown'', JStr (asc ''Hello World''))]) = Inr r)"
proof -
  have h: "effective_is_object (JObj [(asc ''markdown'', JStr (asc ''Hello World''))])"
    by (simp add: effective_is_object_def)
  show ?thesis using h extract_total_on_objects [OF h] by simp
qed

text \<open>
  C5: the extractor is not total. Its first test asks \<open>isinstance(result, dict)\<close> and the
  test of \<open>markdown_v2\<close> asks it again, but the tests \<open>'markdown' in actual_result\<close> and
  \<open>'markdown_v2' in actual_result\<close> do not: on the bodies \<open>null\<close> and \<open>5\<close> they raise
  \<open>TypeError\<close>.
\<close>

theorem C5_raises:
  "extract_clean_content ascii_tables JNull = Inl TypeError
   \<and> extract_clean_content ascii_tables (JInt 5) = Inl TypeError"
  by (simp add: json_defs)

text \<open>
  In the poller the exception is caught by the bare \<open>except\<close>: a completed task whose
  \<open>result\<close> is \<open>null\<close> does not end the poll, which goes on with the next candidate.
\<close>

lemma completed_null_goes_on:
  "attempt env_null ascii_tables (asc ''https://example.com/'') (asc ''/task/x'') world0
     = (Continue, \<lparr>requests = [asc ''/task/x''], slept = 0, files = [],
         console = [MsgCompleted]\<rparr>)"
  by (simp add: attempt_def on_completed_def request_def print_def env_null_def body_null_def
      world0_def completed_states_def json_defs class_defs)

lemma ebind_Inr: "ebind m f = Inr y \<longleftrightarrow> (\<exists>x. m = Inr x \<and> f x = Inr y)"
  by (cases m) (simp_all add: ebind_def)

text \<open>
  C6, amended: a value other than \<open>None\<close> that the extractor returns is the cleaner's
  output on the \<open>markdown\<close> field of the effective object or on the \<open>raw_markdown\<close>
  field of its \<open>markdown_v2\<close>. It may be the empty string.
\<close>

theorem C6_result_is_cleaned:
  assumes "extract_clean_content L body = Inr (Some s)"
  shows "\<exists>ar content. actual_result body = Inr ar
     \<and> (getitem ar (asc ''markdown'') = Inr content
        \<or> (\<exists>v2. getitem ar (asc ''markdown_v2'') = Inr v2
              \<and> getitem v2 (asc ''raw_markdown'') = Inr content))
     \<and> s = clean_markdown_content L content"
  using assms unfolding extract_clean_content_def
  by (auto simp: ebind_Inr split: if_splits)

theorem C6_witness:
  "extract_clean_content ascii_tables
      (JObj [(asc ''markdown_v2'', JObj [(asc ''raw_markdown'', JStr (asc ''Done''))])])
     = Inr (Some (asc ''Done''))
   \<and> (\<exists>ar content.
        actual_result (JObj [(asc ''markdown_v2'', JObj [(asc ''raw_markdown'', JStr (asc ''Done''))])])
          = Inr ar
        \<and> (getitem ar (asc ''markdown'') = Inr content
           \<or> (\<exists>v2. getitem ar (asc ''markdown_v2'') = Inr v2
                 \<and> getitem v2 (asc ''raw_markdown'') = Inr content))
        \<and> asc ''Done'' = clean_markdown_content ascii_tables content)"
proof -
  have h: "extract_clean_content ascii_tables
      (JObj [(asc ''markdown_v2'', JObj [(asc ''raw_markdown'', JStr (asc ''Done''))])])
     = Inr (Some (asc ''Done''))"
    by (simp add: json_defs clean_defs class_defs str_defs)
  show ?thesis using h C6_result_is_cleaned [OF h] by simp
qed

text \<open>
  C6 as stated fails: the body \<open>{"markdown": " "}\<close> has a non-empty \<open>markdown\<close> field
  that cleans to the empty string, and the extractor returns that empty string, not
  \<open>None\<close>.
\<close>

theorem C6_counterexample:
  "extract_clean_content ascii_tables (JObj [(asc ''markdown'', JStr (asc '' ''))])
     = Inr (Some [])"
  by (simp add: json_defs clean_defs class_defs str_defs)

section \<open>Properties of the poller\<close>

lemma attempt_non200:
  assumes "non200 (net E (length (requests w)) e)"
  shows "attempt E L url e w = (Continue, w\<lparr>requests := requests w @ [e]\<rparr>)"
  using assms
  by (cases "net E (length (requests w)) e") (simp_all add: attempt_def non200_def request_def)

lemma poll_round_non200:
  assumes "\<forall>n e. non200 (net E n e)"
  shows "poll_round E L url es w = (None, w\<lparr>requests := requests w @ es\<rparr>)"
proof (induction es arbitrary: w)
  case Nil
  then show ?case by simp
next
  case (Cons e es)
  have "attempt E L url e w = (Continue, w\<lparr>requests := requests w @ [e]\<rparr>)"
    using assms by (intro attempt_non200) simp
  then show ?case by (simp add: Cons.IH)
qed

lemma poll_rounds_non200:
  assumes "\<forall>n e. non200 (net E n e)"
  shows "poll_rounds E L url es k w =
    (False, w\<lparr>requests := requests w @ concat (replicate k es), slept := slept w + 5 * k,
               console := console w @ [MsgTimeout]\<rparr>)"
proof (induction k arbitrary: w)
  case 0
  then show ?case by (simp add: print_def)
next
  case (Suc k)
  show ?case
    by (simp add: poll_round_non200 [OF assms] Suc.IH sleep_def)
qed

text \<open>
  C8: when every request is answered by a response other than 200, the poller makes its
  24 rounds of three requests, sleeps 5 seconds after each round, prints the timeout line
  and returns \<open>False\<close>; it writes no file.
\<close>

theorem C8_timeout:
  assumes "\<forall>n e. non200 (net E n e)"
  shows "wait_for_completion E L task_id url w =
    (False, w\<lparr>requests := requests w @ concat (replicate 24 (endpoints_of L task_id)),
               slept := slept w + 120, console := console w @ [MsgTimeout]\<rparr>)"
  unfolding wait_for_completion_def poll_rounds_non200 [OF assms] by simp

theorem C8_witness:
  "(\<forall>n e. non200 (net env_404 n e))
   \<and> wait_for_completion env_404 ascii_tables (JStr (asc ''x'')) (asc ''https://example.com/'') world0
     = (False, world0\<lparr>requests := requests world0 @
           concat (replicate 24 (endpoints_of ascii_tables (JStr (asc ''x'')))),
         slept := slept world0 + 120, console := console world0 @ [MsgTimeout]\<rparr>)"
proof -
  have h: "\<forall>n e. non200 (net env_404 n e)" by (simp add: env_404_def non200_def)
  show ?thesis using h C8_timeout [OF h] by simp
qed

lemma attempt_completed_miss:
  assumes "completed_miss E L e w"
  shows "attempt E L url e w =
    (Return False, print MsgNoContent (print MsgCompleted (request e w)))"
proof -
  from assms obtain result where r: "net E (length (requests w)) e = Response 200 (Some result)"
    by (auto simp: completed_miss_def split: reply.splits option.splits)
  from assms r obtain status where s: "status_of L result = Inr status"
    "status \<in> set completed_states"
    by (auto simp: completed_miss_def split: sum.splits)
  from assms r s have "on_completed E L url result (request e w) =
      (Return False, print MsgNoContent (print MsgCompleted (request e w)))"
    by (auto simp: completed_miss_def on_completed_def Let_def
        split: sum.splits option.splits list.splits)
  with r s show ?thesis by (simp add: attempt_def request_def)
qed

lemma poll_round_continues:
  assumes "continues E L url pre w = Some w1"
  shows "poll_round E L url (pre @ es) w = poll_round E L url es w1"
  using assms
proof (induction pre arbitrary: w)
  case Nil
  then show ?case by simp
next
  case (Cons e pre)
  then show ?case
    by (cases "attempt E L url e w") (auto split: outcome.splits)
qed

text \<open>
  In any round, when the candidates before \<open>e\<close> let the round go on and the reply at \<open>e\<close>
  is a 200 with a completed status on which the extractor returns \<open>None\<close> or the empty
  string, the poller prints that no content was found and returns \<open>False\<close> at once: no
  further request, no sleep, no timeout line, no file.
\<close>

lemma miss_is_reported_at_once:
  assumes "continues E L url pre w = Some w1" and "completed_miss E L e w1"
  shows "poll_rounds E L url (pre @ e # post) (Suc n) w =
    (False, print MsgNoContent (print MsgCompleted (request e w1)))"
  by (simp add: poll_round_continues [OF assms(1)] attempt_completed_miss [OF assms(2)])

lemma miss_is_reported_at_once_example:
  "continues env_empty ascii_tables (asc ''https://example.com/'') [asc ''/task/x''] world0
     = Some (request (asc ''/task/x'') world0)
   \<and> completed_miss env_empty ascii_tables (asc ''/tasks/x'') (request (asc ''/task/x'') world0)
   \<and> wait_for_completion env_empty ascii_tables (JStr (asc ''x'')) (asc ''https://example.com/'')
       world0
     = (False, \<lparr>requests = [asc ''/task/x'', asc ''/tasks/x''], slept = 0, files = [],
         console = [MsgCompleted, MsgNoContent]\<rparr>)"
proof -
  have h1: "continues env_empty ascii_tables (asc ''https://example.com/'') [asc ''/task/x'']
      world0 = Some (request (asc ''/task/x'') world0)"
    by (simp add: attempt_def env_empty_def world0_def request_def)
  have h2: "completed_miss env_empty ascii_tables (asc ''/tasks/x'')
      (request (asc ''/task/x'') world0)"
    by (simp add: completed_miss_def env_empty_def world0_def request_def body_empty_def
        json_defs completed_states_def class_defs)
  have n: "(24::nat) = Suc 23" by simp
  show ?thesis
    using h1 h2 miss_is_reported_at_once [OF h1 h2, of "[asc ''/result/x'']" 23]
    unfolding wait_for_completion_def n
    by (simp add: endpoints_of_def request_def print_def world0_def)
qed

lemma attempt_null:
  "attempt env_null ascii_tables url e w = (Continue, print MsgCompleted (request e w))"
  by (simp add: attempt_def on_completed_def env_null_def body_null_def completed_states_def
      json_defs class_defs)

lemma poll_round_null:
  "poll_round env_null ascii_tables url es w =
    (None, w\<lparr>requests := requests w @ es,
             console := console w @ replicate (length es) MsgCompleted\<rparr>)"
proof (induction es arbitrary: w)
  case Nil
  then show ?case by simp
next
  case (Cons e es)
  show ?case
    by (simp add: attempt_null Cons.IH print_def request_def replicate_append_same)
qed

lemma poll_rounds_null:
  "poll_rounds env_null ascii_tables url es k w =
    (False, w\<lparr>requests := requests w @ concat (replicate k es), slept := slept w + 5 * k,
               console := console w @ replicate (k * length es) MsgCompleted @ [MsgTimeout]\<rparr>)"
proof (induction k arbitrary: w)
  case 0
  then show ?case by (simp add: print_def)
next
  case (Suc k)
  show ?case
    by (simp add: poll_round_null Suc.IH sleep_def replicate_add)
qed

text \<open>
  C9: a completed reply in which the extractor finds no recognized content is not always
  reported at once. When the \<open>result\<close> of the completed task is \<open>null\<close>, the extractor
  raises \<open>TypeError\<close> instead of returning \<open>None\<close>, the bare \<open>except\<close> catches the
  exception, and the poller goes on: with that reply to every request it prints the
  completion line 72 times, never the line for missing content, sleeps 120 seconds and ends
  in the timeout.
\<close>

theorem C9_null_result_times_out:
  "wait_for_completion env_null ascii_tables (JStr (asc ''x'')) (asc ''https://example.com/'')
      world0
     = (False,
        \<lparr>requests = concat (replicate 24 [asc ''/task/x'', asc ''/tasks/x'', asc ''/result/x'']),
         slept = 120, files = [], console = replicate 72 MsgCompleted @ [MsgTimeout]\<rparr>)"
  unfolding wait_for_completion_def poll_rounds_null
  by (simp add: endpoints_of_def world0_def)




section \<open>Properties of the cleaner\<close>

subsection \<open>Periods\<close>

lemma collapse_periods_Nil [simp]: "collapse_periods s = [] \<longleftrightarrow> s = []"
  by (cases s) simp_all

lemma hd_collapse_periods [simp]: "hd (collapse_periods s) = hd s"
  by (cases s) simp_all

lemma set_collapse_periods: "set (collapse_periods s) \<subseteq> set s"
  by (induction s rule: collapse_periods.induct) (auto dest: set_dropWhileD)

lemma successively_suffix:
  "successively P s \<Longrightarrow> suffix u s \<Longrightarrow> successively P u"
  by (auto simp: suffix_def successively_append_iff)

lemma successively_sublist:
  "successively P s \<Longrightarrow> sublist u s \<Longrightarrow> successively P u"
  by (auto simp: sublist_def successively_append_iff)

lemma hd_dropWhile_not: "dropWhile P s \<noteq> [] \<Longrightarrow> \<not> P (hd (dropWhile P s))"
  by (rule hd_dropWhile)

text \<open>a pass that keeps the head and only shortens runs of periods keeps any relation
  between neighbours that a period to the left satisfies\<close>

lemma collapse_periods_successively:
  assumes "\<And>y. R (ch CHR ''.'') y"
  shows "successively R s \<Longrightarrow> successively R (collapse_periods s)"
proof (induction s rule: collapse_periods.induct)
  case 1
  then show ?case by simp
next
  case (2 c s)
  show ?case
  proof (cases "c = ch CHR ''.'' \<and> take 1 s = asc ''.''")
    case True
    have "successively R (dropWhile (\<lambda>x. x = ch CHR ''.'') s)"
      using "2.prems" by (intro successively_suffix [OF _ suffix_dropWhile])
        (auto simp: successively_Cons)
    with 2 True show ?thesis using assms by (auto simp: successively_Cons)
  next
    case False
    with 2 show ?thesis by (auto simp: successively_Cons)
  qed
qed

lemma collapse_periods_dotdot: "successively no_dotdot (collapse_periods s)"
proof (induction s rule: collapse_periods.induct)
  case 1
  then show ?case by simp
next
  case (2 c s)
  show ?case
  proof (cases "c = ch CHR ''.'' \<and> take 1 s = asc ''.''")
    case True
    let ?d = "dropWhile (\<lambda>x. x = ch CHR ''.'') s"
    have "?d \<noteq> [] \<Longrightarrow> hd ?d \<noteq> ch CHR ''.''"
      using hd_dropWhile [of "\<lambda>x. x = ch CHR ''.''" s] by simp
    with 2 True show ?thesis by (auto simp: successively_Cons no_dotdot_def)
  next
    case False
    with 2 show ?thesis
      by (cases s) (auto simp: successively_Cons no_dotdot_def)
  qed
qed

lemma collapse_periods_fix: "successively no_dotdot s \<Longrightarrow> collapse_periods s = s"
proof (induction s)
  case Nil
  then show ?case by simp
next
  case (Cons c s)
  then show ?case by (cases s) (auto simp: no_dotdot_def)
qed

subsection \<open>Blanks\<close>

lemma collapse_spaces_Nil [simp]: "collapse_spaces s = [] \<longleftrightarrow> s = []"
  by (cases s) simp_all

lemma hd_collapse_spaces:
  "s \<noteq> [] \<Longrightarrow> hd (collapse_spaces s) = (if blank (hd s) then 32 else hd s)"
  by (cases s) simp_all

lemma set_collapse_spaces: "set (collapse_spaces s) \<subseteq> insert 32 (set s)"
  by (induction s rule: collapse_spaces.induct) (auto dest: set_dropWhileD)

lemma run_then:
  assumes "successively R (c # s)" and "P c" and "dropWhile P s \<noteq> []"
  shows "\<exists>b. P b \<and> R b (hd (dropWhile P s))"
  using assms
proof (induction s arbitrary: c)
  case Nil
  then show ?case by simp
next
  case (Cons x s)
  show ?case
  proof (cases "P x")
    case True
    with Cons.prems have "successively R (x # s)" "dropWhile P s \<noteq> []" by auto
    from Cons.IH [OF this(1) True this(2)] True show ?thesis by simp
  next
    case False
    with Cons.prems show ?thesis by auto
  qed
qed

lemma collapse_spaces_successively:
  assumes r: "\<And>x y. R x y \<Longrightarrow> blank y \<Longrightarrow> R x 32"
    and l: "\<And>x y. blank x \<Longrightarrow> R x y \<Longrightarrow> R 32 y"
  shows "successively R s \<Longrightarrow> successively R (collapse_spaces s)"
proof (induction s rule: collapse_spaces.induct)
  case 1
  then show ?case by simp
next
  case (2 c s)
  let ?d = "dropWhile blank s"
  show ?case
  proof (cases "blank c")
    case True
    have "successively R ?d"
      using "2.prems" by (intro successively_suffix [OF _ suffix_dropWhile])
        (auto simp: successively_Cons)
    with 2 True have ih: "successively R (collapse_spaces ?d)" by simp
    have "R 32 (hd (collapse_spaces ?d))" if ne: "?d \<noteq> []"
    proof -
      from run_then [OF "2.prems" True ne] obtain b where "blank b" "R b (hd ?d)" by blast
      then have "R 32 (hd ?d)" by (rule l)
      moreover have "\<not> blank (hd ?d)" using ne by (rule hd_dropWhile)
      ultimately show ?thesis using ne by (simp add: hd_collapse_spaces)
    qed
    with ih True show ?thesis by (auto simp: successively_Cons)
  next
    case False
    with 2 have ih: "successively R (collapse_spaces s)" by (auto simp: successively_Cons)
    have "R c (hd (collapse_spaces s))" if ne: "s \<noteq> []"
    proof -
      from "2.prems" ne have "R c (hd s)" by (auto simp: successively_Cons)
      then show ?thesis using ne r by (auto simp: hd_collapse_spaces)
    qed
    with ih False show ?thesis by (auto simp: successively_Cons)
  qed
qed

lemma collapse_spaces_ok: "blanks_ok (collapse_spaces s)"
proof -
  have "9 \<notin> set (collapse_spaces s)"
    by (induction s rule: collapse_spaces.induct) (auto simp: blank_def)
  moreover have "successively noblanks (collapse_spaces s)"
  proof (induction s rule: collapse_spaces.induct)
    case 1
    then show ?case by simp
  next
    case (2 c s)
    let ?d = "dropWhile blank s"
    show ?case
    proof (cases "blank c")
      case True
      have "\<not> blank (hd (collapse_spaces ?d))" if ne: "?d \<noteq> []"
        using hd_dropWhile [OF ne] ne by (simp add: hd_collapse_spaces)
      with 2 True show ?thesis by (auto simp: successively_Cons noblanks_def)
    next
      case False
      with 2 show ?thesis by (auto simp: successively_Cons noblanks_def)
    qed
  qed
  ultimately show ?thesis by (simp add: blanks_ok_def)
qed

lemma collapse_spaces_fix: "blanks_ok s \<Longrightarrow> collapse_spaces s = s"
proof (induction s)
  case Nil
  then show ?case by simp
next
  case (Cons c s)
  then have ih: "collapse_spaces s = s" by (auto simp: blanks_ok_def successively_Cons)
  show ?case
  proof (cases "blank c")
    case True
    with Cons.prems have c: "c = 32" by (auto simp: blanks_ok_def blank_def)
    from Cons.prems True have "dropWhile blank s = s"
      by (cases s) (auto simp: blanks_ok_def noblanks_def)
    with ih True c show ?thesis by simp
  next
    case False
    with ih show ?thesis by simp
  qed
qed

subsection \<open>Newlines\<close>

lemma nlfree_mono: "nlfree k s \<Longrightarrow> j \<le> k \<Longrightarrow> nlfree j s"
  by (induction s arbitrary: j k) (auto split: if_splits)

lemma nlfree_tail: "nlfree k (a @ b) \<Longrightarrow> nlfree 0 b"
proof (induction a arbitrary: k)
  case Nil
  then show ?case by (auto intro: nlfree_mono)
next
  case (Cons x a)
  then show ?case by (auto split: if_splits)
qed

lemma nlfree_front: "nlfree k (a @ b) \<Longrightarrow> nlfree k a"
  by (induction a arbitrary: k) (auto split: if_splits)

lemma nlfree_suffix: "nlfree k s \<Longrightarrow> suffix u s \<Longrightarrow> nlfree 0 u"
  by (auto simp: suffix_def dest: nlfree_tail)

lemma nlfree_sublist:
  assumes "nlfree 0 s" and "sublist u s"
  shows "nlfree 0 u"
proof -
  from assms(2) obtain ps ss where "s = ps @ u @ ss" by (auto simp: sublist_def)
  with assms(1) have "nlfree 0 (u @ ss)" by (auto dest: nlfree_tail)
  then show ?thesis by (rule nlfree_front)
qed

lemma collapse_newlines_Nil [simp]: "collapse_newlines s = [] \<longleftrightarrow> s = []"
  by (cases s) simp_all

lemma collapse_newlines_nlfree:
  "k + min (length (takeWhile (\<lambda>x. x = NL) s)) 2 \<le> 2 \<Longrightarrow> nlfree k (collapse_newlines s)"
proof (induction s arbitrary: k rule: collapse_newlines.induct)
  case 1
  then show ?case by simp
next
  case (2 c s)
  let ?d = "dropWhile (\<lambda>x. x = NL) s"
  show ?case
  proof (cases "c = NL \<and> take 2 s = [NL, NL]")
    case True
    then obtain s' where s: "s = NL # NL # s'"
      by (cases s; cases "tl s") auto
    with "2.prems" True have k: "k = 0" by simp
    have "takeWhile (\<lambda>x. x = NL) ?d = []"
      by (metis dropWhile_eq_Nil_conv hd_dropWhile takeWhile.simps(1) takeWhile_eq_Nil_iff list.collapse takeWhile.simps(2))
    then have "nlfree (Suc (Suc 0)) (collapse_newlines ?d)"
      using "2.IH"(1) [OF True, of "Suc (Suc 0)"] by simp
    with True k show ?thesis by simp
  next
    case False
    note nf = this
    show ?thesis
    proof (cases "c = NL")
      case True
      with nf have "length (takeWhile (\<lambda>x. x = NL) s) \<le> 1"
        by (cases s; cases "tl s") auto
      with "2.prems" True have "Suc k + min (length (takeWhile (\<lambda>x. x = NL) s)) 2 \<le> 2"
        by auto
      from "2.IH"(2) [OF nf this] "2.prems" True nf show ?thesis by auto
    next
      case False
      have "nlfree 0 (collapse_newlines s)" by (rule "2.IH"(2) [OF nf]) simp
      with False nf show ?thesis by simp
    qed
  qed
qed

lemma collapse_newlines_fix: "nlfree k s \<Longrightarrow> collapse_newlines s = s"
proof (induction s arbitrary: k)
  case Nil
  then show ?case by simp
next
  case (Cons c s)
  have nf: "\<not> (c = NL \<and> take 2 s = [NL, NL])"
  proof
    assume a: "c = NL \<and> take 2 s = [NL, NL]"
    then obtain s' where "s = NL # NL # s'" by (cases s; cases "tl s") auto
    with a Cons.prems show False by simp
  qed
  from Cons have "collapse_newlines s = s" by (auto split: if_splits)
  then show ?case by (simp only: collapse_newlines.simps if_not_P [OF nf])
qed

subsection \<open>Whitespace before punctuation\<close>

lemma fires_iff:
  "fires L c s \<longleftrightarrow> isspace L c \<and> dropWhile (isspace L) s \<noteq> []
     \<and> punct (hd (dropWhile (isspace L) s))"
  by (simp only: fires_def punct_after_spaces_def)

lemma tighten_punct_Cons:
  "tighten_punct L (c # s) =
     (if fires L c s
      then hd (dropWhile (isspace L) s) # tighten_punct L (tl (dropWhile (isspace L) s))
      else c # tighten_punct L s)"
  by (simp add: fires_def)

lemma punct_not_space: "punct p \<Longrightarrow> \<not> isspace L p"
  by (auto simp: punct_def isspace_def is_ascii_def ascii_space_def)

lemma punct_not_NL: "punct p \<Longrightarrow> p \<noteq> NL"
  by (auto simp: punct_def NL_def)

lemma tighten_punct_Nil [simp]: "tighten_punct L s = [] \<longleftrightarrow> s = []"
  by (cases s) (simp_all add: tighten_punct_Cons del: tighten_punct.simps(2))

lemma hd_tighten_punct:
  assumes "s \<noteq> []" and "punct (hd (tighten_punct L s))"
  shows "dropWhile (isspace L) s \<noteq> [] \<and> punct (hd (dropWhile (isspace L) s))"
proof -
  from assms(1) obtain x s' where s: "s = x # s'" by (cases s) auto
  show ?thesis
  proof (cases "fires L x s'")
    case True
    then show ?thesis unfolding s by (simp add: fires_iff tighten_punct_Cons del: tighten_punct.simps)
  next
    case False
    with assms(2) have "punct x" unfolding s by (simp add: tighten_punct_Cons del: tighten_punct.simps)
    then show ?thesis unfolding s by (simp add: punct_not_space)
  qed
qed

lemma tighten_punct_ok: "successively (no_space_punct L) (tighten_punct L s)"
proof (induction L s rule: tighten_punct.induct)
  case (1 L)
  then show ?case by simp
next
  case (2 L c s)
  let ?d = "dropWhile (isspace L) s"
  show ?case
  proof (cases "fires L c s")
    case True
    then have f: "isspace L c \<and> ?d \<noteq> [] \<and> punct (hd ?d)" by (simp add: fires_iff)
    from True have f': "isspace L c \<and> punct_after_spaces L s" by (simp add: fires_def)
    have "successively (no_space_punct L) (tighten_punct L (tl ?d))" by (rule "2.IH"(1) [OF f'])
    moreover have "no_space_punct L (hd ?d) y" for y using f by (simp add: no_space_punct_def punct_not_space)
    ultimately show ?thesis using True by (simp add: tighten_punct_Cons successively_Cons del: tighten_punct.simps)
  next
    case False
    then have nf: "\<not> (isspace L c \<and> punct_after_spaces L s)" by (simp add: fires_def)
    then have ih: "successively (no_space_punct L) (tighten_punct L s)" by (rule "2.IH"(2))
    have "no_space_punct L c (hd (tighten_punct L s))" if ne: "s \<noteq> []"
    proof (rule ccontr)
      assume "\<not> no_space_punct L c (hd (tighten_punct L s))"
      then have c: "isspace L c" and p: "punct (hd (tighten_punct L s))"
        by (auto simp: no_space_punct_def)
      from hd_tighten_punct [OF ne p] c have "fires L c s" by (simp add: fires_iff)
      with False show False by simp
    qed
    with ih False show ?thesis
      by (auto simp: tighten_punct_Cons successively_Cons simp del: tighten_punct.simps)
  qed
qed

lemma tighten_punct_fix: "successively (no_space_punct L) s \<Longrightarrow> tighten_punct L s = s"
proof (induction s)
  case Nil
  then show ?case by simp
next
  case (Cons c s)
  have "\<not> fires L c s"
  proof
    assume f: "fires L c s"
    then have "isspace L c" "dropWhile (isspace L) s \<noteq> []" by (simp_all add: fires_iff)
    from run_then [OF Cons.prems this] obtain b where
      "isspace L b" "no_space_punct L b (hd (dropWhile (isspace L) s))" by blast
    with f show False by (auto simp: fires_iff no_space_punct_def)
  qed
  moreover from Cons have "tighten_punct L s = s" by (auto simp: successively_Cons)
  ultimately show ?case by (simp add: tighten_punct_Cons del: tighten_punct.simps)
qed

lemma tighten_punct_nlfree: "nlfree k s \<Longrightarrow> nlfree k (tighten_punct L s)"
proof (induction L s arbitrary: k rule: tighten_punct.induct)
  case (1 L)
  then show ?case by simp
next
  case (2 L c s)
  let ?d = "dropWhile (isspace L) s"
  show ?case
  proof (cases "fires L c s")
    case True
    then have f: "isspace L c \<and> ?d \<noteq> [] \<and> punct (hd ?d)" by (simp add: fires_iff)
    from True have f': "isspace L c \<and> punct_after_spaces L s" by (simp add: fires_def)
    have "suffix (tl ?d) (c # s)"
      by (meson suffix_ConsI suffix_dropWhile suffix_order.trans suffix_tl)
    with "2.prems" have "nlfree 0 (tl ?d)" by (rule nlfree_suffix)
    then have "nlfree 0 (tighten_punct L (tl ?d))" by (rule "2.IH"(1) [OF f'])
    with True f show ?thesis by (simp add: tighten_punct_Cons punct_not_NL del: tighten_punct.simps)
  next
    case False
    then have nf: "\<not> (isspace L c \<and> punct_after_spaces L s)" by (simp add: fires_def)
    from "2.prems" "2.IH"(2) [OF nf] False show ?thesis
      by (auto simp: tighten_punct_Cons simp del: tighten_punct.simps split: if_splits)
  qed
qed

lemma collapse_spaces_nlfree: "nlfree k s \<Longrightarrow> nlfree k (collapse_spaces s)"
proof (induction s arbitrary: k rule: collapse_spaces.induct)
  case 1
  then show ?case by simp
next
  case (2 c s)
  show ?case
  proof (cases "blank c")
    case True
    then have n: "c \<noteq> NL" "32 \<noteq> NL" by (auto simp: blank_def NL_def)
    have "suffix (dropWhile blank s) (c # s)"
      by (meson suffix_ConsI suffix_dropWhile)
    with "2.prems" have "nlfree 0 (dropWhile blank s)" by (rule nlfree_suffix)
    then have "nlfree 0 (collapse_spaces (dropWhile blank s))" by (rule "2.IH"(1) [OF True])
    with True n show ?thesis by simp
  next
    case False
    from "2.prems" "2.IH"(2) [OF False] False show ?thesis by (auto split: if_splits)
  qed
qed

lemma collapse_periods_nlfree: "nlfree k s \<Longrightarrow> nlfree k (collapse_periods s)"
proof (induction s arbitrary: k rule: collapse_periods.induct)
  case 1
  then show ?case by simp
next
  case (2 c s)
  show ?case
  proof (cases "c = ch CHR ''.'' \<and> take 1 s = asc ''.''")
    case True
    then have n: "c \<noteq> NL" by (auto simp: NL_def)
    have "suffix (dropWhile (\<lambda>x. x = ch CHR ''.'') s) (c # s)"
      by (meson suffix_ConsI suffix_dropWhile)
    with "2.prems" have "nlfree 0 (dropWhile (\<lambda>x. x = ch CHR ''.'') s)"
      by (rule nlfree_suffix)
    then have "nlfree 0 (collapse_periods (dropWhile (\<lambda>x. x = ch CHR ''.'') s))"
      by (rule "2.IH"(1) [OF True])
    with True n show ?thesis by simp
  next
    case False
    from "2.prems" "2.IH"(2) [OF False] False show ?thesis by (auto split: if_splits)
  qed
qed

subsection \<open>Words\<close>

lemma nonword_NL: "\<not> isword L NL"
  by (simp add: NL_def class_defs)

lemma nonword_blank: "blank c \<Longrightarrow> \<not> isword L c"
  by (auto simp: blank_def class_defs)

lemma nonword_punct: "punct c \<Longrightarrow> \<not> isword L c"
  by (auto simp: punct_def class_defs)

lemma nonword_period: "\<not> isword L (ch CHR ''.'')"
  by (simp add: class_defs)

lemma tokens_dropWhile:
  assumes "\<And>c. P c \<Longrightarrow> \<not> isword L c"
  shows "tokens L [] (dropWhile P s) = tokens L [] s"
  using assms by (induction s) auto

lemma tokens_nonword_Cons:
  "\<not> isword L c \<Longrightarrow> tokens L cur (c # s) = (if cur = [] then [] else [cur]) @ tokens L [] s"
  by simp

lemma tokens_append_nonword:
  assumes "\<forall>c\<in>set b. \<not> isword L c"
  shows "tokens L cur (a @ b) = tokens L cur a"
proof -
  have "tokens L cur b = (if cur = [] then [] else [cur])" for cur
    using assms by (induction b arbitrary: cur) auto
  then show ?thesis by (induction a arbitrary: cur) auto
qed

lemma collapse_newlines_tokens: "tokens L cur (collapse_newlines s) = tokens L cur s"
proof (induction s arbitrary: cur rule: collapse_newlines.induct)
  case 1
  then show ?case by simp
next
  case (2 c s)
  show ?case
  proof (cases "c = NL \<and> take 2 s = [NL, NL]")
    case True
    have "tokens L [] (dropWhile (\<lambda>x. x = NL) s) = tokens L [] s"
      by (rule tokens_dropWhile) (simp add: nonword_NL)
    with True "2.IH"(1) [OF True, of "[]"] show ?thesis by (simp add: nonword_NL)
  next
    case False
    with "2.IH"(2) [OF False] show ?thesis by auto
  qed
qed

lemma collapse_spaces_tokens: "tokens L cur (collapse_spaces s) = tokens L cur s"
proof (induction s arbitrary: cur rule: collapse_spaces.induct)
  case 1
  then show ?case by simp
next
  case (2 c s)
  show ?case
  proof (cases "blank c")
    case True
    have "tokens L [] (dropWhile blank s) = tokens L [] s"
      by (rule tokens_dropWhile) (rule nonword_blank)
    moreover have "\<not> isword L 32" by (simp add: class_defs)
    ultimately show ?thesis
      using True "2.IH"(1) [OF True, of "[]"] nonword_blank [OF True, of L] by simp
  next
    case False
    with "2.IH"(2) [OF False] show ?thesis by auto
  qed
qed

lemma collapse_periods_tokens: "tokens L cur (collapse_periods s) = tokens L cur s"
proof (induction s arbitrary: cur rule: collapse_periods.induct)
  case 1
  then show ?case by simp
next
  case (2 c s)
  show ?case
  proof (cases "c = ch CHR ''.'' \<and> take 1 s = asc ''.''")
    case True
    have "tokens L [] (dropWhile (\<lambda>x. x = ch CHR ''.'') s) = tokens L [] s"
      by (rule tokens_dropWhile) (simp add: class_defs)
    with True "2.IH"(1) [OF True, of "[]"] nonword_period [of L] show ?thesis by simp
  next
    case False
    with "2.IH"(2) [OF False] show ?thesis by auto
  qed
qed

lemma tighten_punct_tokens:
  "spaces_not_words L \<Longrightarrow> tokens L cur (tighten_punct L s) = tokens L cur s"
proof (induction L s arbitrary: cur rule: tighten_punct.induct)
  case (1 L)
  then show ?case by simp
next
  case (2 L c s)
  let ?d = "dropWhile (isspace L) s"
  from "2.prems" have nw: "\<And>c. isspace L c \<Longrightarrow> \<not> isword L c"
    by (auto simp: spaces_not_words_def)
  show ?case
  proof (cases "fires L c s")
    case True
    then have f: "isspace L c" "?d \<noteq> []" "punct (hd ?d)" by (simp_all add: fires_iff)
    from True have f': "isspace L c \<and> punct_after_spaces L s" by (simp add: fires_def)
    have "tokens L [] s = tokens L [] ?d" by (rule tokens_dropWhile [symmetric]) (rule nw)
    also have "?d = hd ?d # tl ?d" using f(2) by simp
    also have "tokens L [] (hd ?d # tl ?d) = tokens L [] (tl ?d)"
      using nonword_punct [OF f(3), of L] by simp
    finally have "tokens L [] s = tokens L [] (tl ?d)" .
    with True "2.IH"(1) [OF f' "2.prems", of "[]"] nw [OF f(1)] nonword_punct [OF f(3), of L]
    show ?thesis by (simp add: tighten_punct_Cons del: tighten_punct.simps)
  next
    case False
    then have nf: "\<not> (isspace L c \<and> punct_after_spaces L s)" by (simp add: fires_def)
    from False "2.IH"(2) [OF nf "2.prems"] show ?thesis
      by (simp add: tighten_punct_Cons del: tighten_punct.simps)
  qed
qed

lemma strip_tokens:
  assumes "spaces_not_words L"
  shows "tokens L [] (strip L s) = tokens L [] s"
proof -
  let ?P = "isspace L"
  let ?d = "dropWhile ?P s"
  from assms have nw: "\<And>c. ?P c \<Longrightarrow> \<not> isword L c" by (auto simp: spaces_not_words_def)
  have "rev ?d = takeWhile ?P (rev ?d) @ dropWhile ?P (rev ?d)" by simp
  then have "?d = strip L s @ rev (takeWhile ?P (rev ?d))"
    unfolding strip_def strip_chars_def by (metis rev_append rev_rev_ident)
  moreover have "\<forall>c\<in>set (rev (takeWhile ?P (rev ?d))). \<not> isword L c"
    by (auto dest: set_takeWhileD nw)
  ultimately have "tokens L [] ?d = tokens L [] (strip L s)"
    by (metis tokens_append_nonword)
  moreover have "tokens L [] ?d = tokens L [] s" by (rule tokens_dropWhile) (rule nw)
  ultimately show ?thesis by simp
qed

subsection \<open>The placeholder\<close>

lemma tokens_split:
  "cur \<noteq> [] \<Longrightarrow>
   tokens L cur s = (cur @ takeWhile (isword L) s) # tokens L [] (dropWhile (isword L) s)"
  by (induction s arbitrary: cur) auto

lemma tokens_length: "t \<in> set (tokens L cur s) \<Longrightarrow> length t \<le> length cur + length s"
proof (induction s arbitrary: cur)
  case Nil
  then show ?case by (auto split: if_splits)
next
  case (Cons c s)
  show ?case
  proof (cases "isword L c")
    case True
    with Cons.prems have "t \<in> set (tokens L (cur @ [c]) s)" by simp
    from Cons.IH [OF this] show ?thesis by simp
  next
    case False
    with Cons.prems have "t = cur \<or> t \<in> set (tokens L [] s)" by (auto split: if_splits)
    then show ?thesis using Cons.IH [of "[]"] by auto
  qed
qed

lemma short_tokens: "length s < 3 \<Longrightarrow> asc ''URL'' \<notin> set (tokens L [] s)"
  using tokens_length [of "asc ''URL''" L "[]" s] by auto

lemma word_URL: "isword L (ch CHR ''U'')" "isword L (ch CHR ''R'')" "isword L (ch CHR ''L'')"
  by (simp_all add: class_defs)

lemma remove_url_at_short: "length s < 3 \<Longrightarrow> remove_url_at L pw s = s"
  by (cases s; cases "tl s"; cases "tl (tl s)") auto

lemma remove_url_at_long:
  "remove_url_at L pw (a # b # c # s) =
     (if matches L pw (a # b # c # s) then remove_url_at L True s
      else a # remove_url_at L (isword L a) (b # c # s))"
  by (simp add: matches_def)

lemma tokens_URL:
  assumes "\<not> (s \<noteq> [] \<and> isword L (hd s))"
  shows "tokens L [] (asc ''URL'' @ s) = asc ''URL'' # tokens L [] s"
proof -
  have "tokens L [] (asc ''URL'' @ s) = tokens L (asc ''URL'') s"
    using word_URL [of L] by simp
  also have "\<dots> = (asc ''URL'' @ takeWhile (isword L) s) # tokens L [] (dropWhile (isword L) s)"
    by (rule tokens_split) simp
  also have "takeWhile (isword L) s = []" using assms by (cases s) auto
  also have "dropWhile (isword L) s = s" using assms by (cases s) auto
  finally show ?thesis by simp
qed

lemma first_token_not_URL:
  assumes "\<not> matches L False (a # b # c # s)"
  shows "[a] @ takeWhile (isword L) (b # c # s) \<noteq> asc ''URL''"
proof
  assume e: "[a] @ takeWhile (isword L) (b # c # s) = asc ''URL''"
  then have a: "a = ch CHR ''U''" by simp
  from e a have b: "b = ch CHR ''R''" by (auto split: if_splits)
  from e a b have c: "c = ch CHR ''L''" by (auto split: if_splits)
  from e a b c have "takeWhile (isword L) s = []" by (auto split: if_splits)
  then have "\<not> (s \<noteq> [] \<and> isword L (hd s))" by (cases s) (auto split: if_splits)
  with a b c assms show False by (simp add: matches_def)
qed

lemma keepfirst_short:
  assumes "length s < 3"
  shows "keepfirst cur (tokens L cur s) = tokens L cur s"
proof (cases "cur = []")
  case True
  with short_tokens [OF assms, of L] show ?thesis by (auto simp: keepfirst_def filter_id_conv)
next
  case False
  have "length (dropWhile (isword L) s) < 3"
    using assms length_dropWhile_le [of "isword L" s] by simp
  from short_tokens [OF this, of L] False show ?thesis
    by (auto simp: keepfirst_def tokens_split filter_id_conv)
qed

lemma remove_url_at_tokens:
  assumes "cur \<noteq> [] \<longrightarrow> pw" and "pw \<longrightarrow> cur \<noteq> [] \<or> s = [] \<or> \<not> isword L (hd s)"
  shows "tokens L cur (remove_url_at L pw s) = keepfirst cur (tokens L cur s)"
  using assms
proof (induction "length s" arbitrary: s cur pw rule: less_induct)
  case less
  show ?case
  proof (cases "length s < 3")
    case True
    then show ?thesis by (simp add: remove_url_at_short keepfirst_short)
  next
    case False
    then obtain a b c s' where s: "s = a # b # c # s'"
      by (cases s; cases "tl s"; cases "tl (tl s)") auto
    show ?thesis
    proof (cases "matches L pw s")
      case True
      then have m: "a # b # c # [] = asc ''URL''" "\<not> pw"
        "\<not> (s' \<noteq> [] \<and> isword L (hd s'))"
        by (simp_all add: matches_def s)
      with less.prems have cur: "cur = []" by simp
      have "tokens L [] (remove_url_at L True s') = keepfirst [] (tokens L [] s')"
        by (rule less.hyps) (use m in \<open>auto simp: s\<close>)
      moreover have "tokens L [] s = asc ''URL'' # tokens L [] s'"
        using tokens_URL [OF m(3)] m(1) by (simp add: s)
      ultimately show ?thesis using True
        by (simp add: cur s remove_url_at_long keepfirst_def del: remove_url_at.simps)
    next
      case False
      define r where "r = b # c # s'"
      have s2: "s = a # r" by (simp add: s r_def)
      have len: "length r < length s" by (simp add: s2)
      have step: "remove_url_at L pw s = a # remove_url_at L (isword L a) r"
        using False unfolding s r_def by (simp add: remove_url_at_long del: remove_url_at.simps)
      show ?thesis
      proof (cases "isword L a")
        case True
        have ih: "tokens L (cur @ [a]) (remove_url_at L True r)
            = keepfirst (cur @ [a]) (tokens L (cur @ [a]) r)"
          by (rule less.hyps [OF len]) simp_all
        have "keepfirst (cur @ [a]) (tokens L (cur @ [a]) r)
            = keepfirst cur (tokens L (cur @ [a]) r)"
        proof (cases "cur = []")
          case False
          then show ?thesis by (simp add: keepfirst_def)
        next
          case cur: True
          with less.prems(2) True have "\<not> pw" by (simp add: s)
          with False have "\<not> matches L False (a # b # c # s')" by (simp add: s)
          from first_token_not_URL [OF this]
          have "[a] @ takeWhile (isword L) r \<noteq> asc ''URL''" by (simp add: r_def)
          then show ?thesis
            unfolding cur keepfirst_def by (simp add: tokens_split [of "[a]"])
        qed
        with ih True show ?thesis unfolding step by (simp add: s2)
      next
        case nw: False
        have ih: "tokens L [] (remove_url_at L False r) = keepfirst [] (tokens L [] r)"
          by (rule less.hyps [OF len]) simp_all
        with nw show ?thesis unfolding step by (simp add: s2 keepfirst_def)
      qed
    qed
  qed
qed

lemma remove_url_tokens_ok: "asc ''URL'' \<notin> set (tokens L [] (remove_url_tokens L s))"
  unfolding remove_url_tokens_def
  by (simp add: remove_url_at_tokens keepfirst_def)

lemma remove_url_at_fix:
  assumes "cur \<noteq> [] \<longrightarrow> pw" and "pw \<longrightarrow> cur \<noteq> [] \<or> s = [] \<or> \<not> isword L (hd s)"
    and "asc ''URL'' \<notin> set (if cur = [] then tokens L cur s else tl (tokens L cur s))"
  shows "remove_url_at L pw s = s"
  using assms
proof (induction "length s" arbitrary: s cur pw rule: less_induct)
  case less
  show ?case
  proof (cases "length s < 3")
    case True
    then show ?thesis by (rule remove_url_at_short)
  next
    case False
    then obtain a b c s' where s: "s = a # b # c # s'"
      by (cases s; cases "tl s"; cases "tl (tl s)") auto
    define r where "r = b # c # s'"
    have s2: "s = a # r" by (simp add: s r_def)
    have len: "length r < length s" by (simp add: s2)
    have nm: "\<not> matches L pw s"
    proof
      assume "matches L pw s"
      then have m: "a # b # c # [] = asc ''URL''" "\<not> pw"
        "\<not> (s' \<noteq> [] \<and> isword L (hd s'))"
        by (simp_all add: matches_def s)
      with less.prems have cur: "cur = []" by simp
      have "tokens L [] s = asc ''URL'' # tokens L [] s'"
        using tokens_URL [OF m(3)] m(1) by (simp add: s)
      with less.prems(3) cur show False by simp
    qed
    then have step: "remove_url_at L pw s = a # remove_url_at L (isword L a) r"
      unfolding s r_def by (simp add: remove_url_at_long del: remove_url_at.simps)
    have "remove_url_at L (isword L a) r = r"
    proof (cases "isword L a")
      case True
      have "asc ''URL'' \<notin> set (tl (tokens L (cur @ [a]) r))"
      proof (cases "cur = []")
        case c: True
        with less.prems(3) True have "asc ''URL'' \<notin> set (tokens L [a] r)"
          by (simp add: s2)
        then show ?thesis
          unfolding c by (simp add: tokens_split [of "[a]"])
      next
        case False
        with less.prems(3) True show ?thesis by (simp add: s2)
      qed
      then have "remove_url_at L True r = r"
        by (intro less.hyps [OF len, of "cur @ [a]"]) simp_all
      with True show ?thesis by simp
    next
      case nw: False
      have "asc ''URL'' \<notin> set (tokens L [] r)"
        using less.prems(3) nw by (cases "cur = []") (simp_all add: s2)
      then have "remove_url_at L False r = r"
        by (intro less.hyps [OF len, of "[]"]) simp_all
      with nw show ?thesis by simp
    qed
    with step show ?thesis by (simp add: s2)
  qed
qed

lemma remove_url_tokens_fix:
  "asc ''URL'' \<notin> set (tokens L [] s) \<Longrightarrow> remove_url_tokens L s = s"
  unfolding remove_url_tokens_def by (rule remove_url_at_fix [of "[]"]) simp_all

subsection \<open>The passes that need a bracket\<close>

lemma remove_citations_id: "LANGLE \<notin> set s \<Longrightarrow> remove_citations L s = s"
  by (induction s) auto

lemma image_match_None: "ch CHR ''['' \<notin> set s \<Longrightarrow> image_match s = None"
  by (cases s) (auto simp: image_match_def)

lemma collapse_images_id: "ch CHR ''['' \<notin> set s \<Longrightarrow> collapse_images s = s"
  by (induction s) (auto simp: image_match_None)

lemma remove_empty_links_id: "ch CHR ''['' \<notin> set s \<Longrightarrow> remove_empty_links s = s"
  by (induction s) auto

lemma set_remove_url_at: "set (remove_url_at L pw s) \<subseteq> set s"
  by (induction L pw s rule: remove_url_at.induct) auto

lemma set_collapse_newlines: "set (collapse_newlines s) \<subseteq> set s"
  by (induction s rule: collapse_newlines.induct) (auto dest: set_dropWhileD)

lemma set_tighten_punct: "set (tighten_punct L s) \<subseteq> set s"
proof (induction L s rule: tighten_punct.induct)
  case (1 L)
  then show ?case by simp
next
  case (2 L c s)
  let ?d = "dropWhile (isspace L) s"
  show ?case
  proof (cases "fires L c s")
    case True
    then have f: "isspace L c \<and> punct_after_spaces L s" by (simp add: fires_def)
    from True have ne: "?d \<noteq> []" by (simp add: fires_iff)
    have "set ?d \<subseteq> set s" by (auto dest: set_dropWhileD)
    moreover have "xs \<noteq> [] \<Longrightarrow> hd xs \<in> set xs \<and> set (tl xs) \<subseteq> set xs" for xs :: ustr
      by (cases xs) auto
    from this [OF ne] have "hd ?d \<in> set ?d" "set (tl ?d) \<subseteq> set ?d" by blast+
    ultimately show ?thesis using "2.IH"(1) [OF f] True
      by (auto simp: tighten_punct_Cons simp del: tighten_punct.simps)
  next
    case False
    then have nf: "\<not> (isspace L c \<and> punct_after_spaces L s)" by (simp add: fires_def)
    from "2.IH"(2) [OF nf] False show ?thesis
      by (auto simp: tighten_punct_Cons simp del: tighten_punct.simps)
  qed
qed

lemma set_strip: "set (strip L s) \<subseteq> set s"
  unfolding strip_def by (rule set_mono_sublist [OF sublist_strip_chars])

lemma strip_strip: "strip L (strip L s) = strip L s"
proof (cases "strip L s = []")
  case True
  show ?thesis unfolding True by (simp add: strip_def strip_chars_def)
next
  case False
  then have ne: "strip_chars (isspace L) s \<noteq> []" by (simp add: strip_def)
  show ?thesis
    unfolding strip_def
    by (rule strip_chars_id [OF ne strip_chars_ends(1) [OF ne] strip_chars_ends(2) [OF ne]])
qed

subsection \<open>The cleaner on a text without brackets\<close>

lemma clean_text_plain:
  assumes "plain s"
  shows "clean_text L s = plain_passes L s"
proof -
  let ?t2 = "remove_url_tokens L s"
  let ?t6 = "collapse_spaces (tighten_punct L (collapse_newlines ?t2))"
  from assms have 1: "remove_citations L s = s" by (simp add: plain_def remove_citations_id)
  have "set ?t2 \<subseteq> set s" unfolding remove_url_tokens_def by (rule set_remove_url_at)
  with assms have b2: "ch CHR ''['' \<notin> set ?t2" by (auto simp: plain_def)
  then have 3: "collapse_images ?t2 = ?t2" by (rule collapse_images_id)
  have "set ?t6 \<subseteq> insert 32 (set ?t2)"
    using set_collapse_spaces [of "tighten_punct L (collapse_newlines ?t2)"]
      set_tighten_punct [of L "collapse_newlines ?t2"] set_collapse_newlines [of ?t2]
    by blast
  with b2 have "ch CHR ''['' \<notin> set ?t6" by auto
  then have 7: "remove_empty_links ?t6 = ?t6" by (rule remove_empty_links_id)
  show ?thesis by (simp add: clean_text_def plain_passes_def Let_def 1 3 7)
qed

lemma plain_passes_plain:
  assumes "plain s"
  shows "plain (plain_passes L s)"
proof -
  let ?t2 = "remove_url_tokens L s"
  let ?t5 = "tighten_punct L (collapse_newlines ?t2)"
  have "set ?t2 \<subseteq> set s" unfolding remove_url_tokens_def by (rule set_remove_url_at)
  moreover have "set ?t5 \<subseteq> set ?t2"
    using set_tighten_punct [of L "collapse_newlines ?t2"] set_collapse_newlines [of ?t2]
    by blast
  moreover have "set (plain_passes L s) \<subseteq> insert 32 (set ?t5)"
    unfolding plain_passes_def
    using set_strip [of L "collapse_periods (collapse_spaces ?t5)"]
      set_collapse_periods [of "collapse_spaces ?t5"] set_collapse_spaces [of ?t5]
    by blast
  ultimately have "set (plain_passes L s) \<subseteq> insert 32 (set s)" by blast
  with assms show ?thesis by (auto simp: plain_def LANGLE_def)
qed

lemma plain_passes_idem:
  assumes snw: "spaces_not_words L"
  shows "plain_passes L (plain_passes L s) = plain_passes L s"
proof -
  let ?t2 = "remove_url_tokens L s"
  let ?t4 = "collapse_newlines ?t2"
  let ?t5 = "tighten_punct L ?t4"
  let ?t6 = "collapse_spaces ?t5"
  let ?t8 = "collapse_periods ?t6"
  let ?t = "strip L ?t8"
  have sub: "sublist ?t ?t8" unfolding strip_def by (rule sublist_strip_chars)
  have "tokens L [] ?t = tokens L [] ?t2"
    by (simp add: strip_tokens [OF snw] collapse_periods_tokens collapse_spaces_tokens
        tighten_punct_tokens [OF snw] collapse_newlines_tokens)
  then have "asc ''URL'' \<notin> set (tokens L [] ?t)"
    using remove_url_tokens_ok [of L s] by simp
  then have 2: "remove_url_tokens L ?t = ?t" by (rule remove_url_tokens_fix)
  have "nlfree 0 ?t4" by (rule collapse_newlines_nlfree) simp
  then have "nlfree 0 ?t8"
    by (intro collapse_periods_nlfree collapse_spaces_nlfree tighten_punct_nlfree)
  then have "nlfree 0 ?t" using sub by (rule nlfree_sublist)
  then have 4: "collapse_newlines ?t = ?t" by (rule collapse_newlines_fix)
  have "successively (no_space_punct L) ?t5" by (rule tighten_punct_ok)
  then have "successively (no_space_punct L) ?t6"
    by (rule collapse_spaces_successively [rotated 2])
       (auto simp: no_space_punct_def punct_def blank_def class_defs)
  then have "successively (no_space_punct L) ?t8"
    by (rule collapse_periods_successively [rotated]) (simp add: no_space_punct_def class_defs)
  then have "successively (no_space_punct L) ?t" using sub by (rule successively_sublist)
  then have 5: "tighten_punct L ?t = ?t" by (rule tighten_punct_fix)
  have b6: "blanks_ok ?t6" by (rule collapse_spaces_ok)
  then have "successively noblanks ?t8"
    unfolding blanks_ok_def
    by (intro collapse_periods_successively) (simp_all add: noblanks_def blank_def)
  then have "successively noblanks ?t" using sub by (rule successively_sublist)
  moreover have "9 \<notin> set ?t"
    using b6 set_mono_sublist [OF sub] set_collapse_periods [of ?t6]
    by (auto simp: blanks_ok_def)
  ultimately have 6: "collapse_spaces ?t = ?t"
    by (intro collapse_spaces_fix) (simp add: blanks_ok_def)
  have "successively no_dotdot ?t8" by (rule collapse_periods_dotdot)
  then have "successively no_dotdot ?t" using sub by (rule successively_sublist)
  then have 8: "collapse_periods ?t = ?t" by (rule collapse_periods_fix)
  have 9: "strip L ?t = ?t" by (rule strip_strip)
  show ?thesis
    unfolding plain_passes_def 2 4 5 6 8 9 ..
qed

lemma clean_is_clean_text: "clean L s = clean_text L s"
proof (cases "s = []")
  case True
  then show ?thesis
    by (simp add: clean_def clean_markdown_content_def clean_text_def remove_url_tokens_def
        strip_def strip_chars_def)
next
  case False
  then show ?thesis by (simp add: clean_def clean_markdown_content_def)
qed

text \<open>
  C2, amended: on a string that holds neither an opening square bracket nor the citation
  bracket U+27E8, cleaning twice is cleaning once, provided that no character is both
  whitespace and a word character (as in Unicode).
\<close>

theorem C2_idempotent_without_brackets:
  assumes "spaces_not_words L" and "ch CHR ''['' \<notin> set s" and "LANGLE \<notin> set s"
  shows "clean L (clean L s) = clean L s"
proof -
  from assms(2,3) have p: "plain s" by (simp add: plain_def)
  then have "plain (plain_passes L s)" by (rule plain_passes_plain)
  then show ?thesis
    by (simp add: clean_is_clean_text clean_text_plain p plain_passes_idem [OF assms(1)])
qed

theorem C2_witness:
  "spaces_not_words ascii_tables
   \<and> ch CHR ''['' \<notin> set (asc ''see URL , the  URLs ... ok . '')
   \<and> LANGLE \<notin> set (asc ''see URL , the  URLs ... ok . '')
   \<and> clean ascii_tables (clean ascii_tables (asc ''see URL , the  URLs ... ok . ''))
     = clean ascii_tables (asc ''see URL , the  URLs ... ok . '')"
proof -
  have h1: "spaces_not_words ascii_tables"
    by (auto simp: spaces_not_words_def ascii_tables_def class_defs)
  have h2: "ch CHR ''['' \<notin> set (asc ''see URL , the  URLs ... ok . '')" by simp
  have h3: "LANGLE \<notin> set (asc ''see URL , the  URLs ... ok . '')" by (simp add: LANGLE_def)
  show ?thesis
    using h1 h2 h3 C2_idempotent_without_brackets [OF h1 h2 h3] by blast
qed

text \<open>
  C2 as stated fails: cleaning \<open>a [](x).\<close> removes the empty link and yields \<open>a .\<close>;
  cleaning that again removes the space before the period and yields \<open>a.\<close>.
\<close>

theorem C2_counterexample:
  "clean ascii_tables (asc ''a [](x).'') = asc ''a .''
   \<and> clean ascii_tables (clean ascii_tables (asc ''a [](x).'')) = asc ''a.''"
  by (simp add: clean_defs class_defs str_defs)

end
